theory Spec2Isabelle
  imports Complex_Main
begin

section \<open>The build orchestrator of build.ts\<close>

text \<open>
  A shallow embedding of \<^verbatim>\<open>build.ts\<close>: the command-line parser (\<^verbatim>\<open>toCamelCase\<close>,
  \<^verbatim>\<open>parseValue\<close>, \<^verbatim>\<open>parseArgs\<close>), the size formatter (\<^verbatim>\<open>formatFileSize\<close>) and
  the pipeline \<^verbatim>\<open>buildProgram\<close>.

  A JavaScript string is a sequence of code units. It is modelled as a \<open>string\<close>, one
  \<open>char\<close> per code unit, which covers the strings whose code units are below 256.
\<close>

subsection \<open>String operations of the JavaScript library\<close>

text \<open>\<^verbatim>\<open>s.startsWith(p)\<close>\<close>

definition startsWith :: "string \<Rightarrow> string \<Rightarrow> bool" where
  "startsWith s p = (take (length p) s = p)"

text \<open>\<^verbatim>\<open>s.includes(c)\<close> for a one-character \<open>c\<close>\<close>

definition includes_chr :: "string \<Rightarrow> char \<Rightarrow> bool" where
  "includes_chr s c = (c \<in> set s)"

text \<open>\<^verbatim>\<open>s.includes(p)\<close> for a string \<open>p\<close>: \<open>p\<close> occurs somewhere in \<open>s\<close>.\<close>

fun includes_str :: "string \<Rightarrow> string \<Rightarrow> bool" where
  "includes_str [] p = (p = [])"
| "includes_str (x # xs) p = (startsWith (x # xs) p \<or> includes_str xs p)"

text \<open>
  \<^verbatim>\<open>s.split(c)\<close> for a one-character separator: the pieces between the separators, in
  order; the empty string gives one empty piece.
\<close>

fun split_chr :: "char \<Rightarrow> string \<Rightarrow> string list" where
  "split_chr c [] = [[]]"
| "split_chr c (x # xs) =
     (if x = c then [] # split_chr c xs
      else (case split_chr c xs of
              p # ps \<Rightarrow> (x # p) # ps
            | [] \<Rightarrow> [[x]]))"

text \<open>
  \<^verbatim>\<open>s.split(c, limit)\<close>: the array of all pieces cut down to its first \<open>limit\<close>
  elements. The text after the \<open>limit\<close>-th piece is dropped, not kept in the last piece.
\<close>

definition split_limit :: "char \<Rightarrow> nat \<Rightarrow> string \<Rightarrow> string list" where
  "split_limit c limit s = take limit (split_chr c s)"

text \<open>
  \<^verbatim>\<open>s.trim()\<close> removes white space and line terminators from both ends. Below 256
  these are the code units 9 to 13, 32 and 160.
\<close>

definition is_space :: "char \<Rightarrow> bool" where
  "is_space c = ((of_char c :: nat) \<in> {9, 10, 11, 12, 13, 32, 160})"

definition trim :: "string \<Rightarrow> string" where
  "trim s = rev (dropWhile is_space (rev (dropWhile is_space s)))"

text \<open>The character classes \<^verbatim>\<open>\d\<close> and \<^verbatim>\<open>[a-z]\<close> of the regular expressions.\<close>

definition is_digit :: "char \<Rightarrow> bool" where
  "is_digit c = (48 \<le> (of_char c :: nat) \<and> (of_char c :: nat) \<le> 57)"

definition is_lower :: "char \<Rightarrow> bool" where
  "is_lower c = (97 \<le> (of_char c :: nat) \<and> (of_char c :: nat) \<le> 122)"

text \<open>\<^verbatim>\<open>c.toUpperCase()\<close> on a letter matched by \<^verbatim>\<open>[a-z]\<close>.\<close>

definition toUpperCase :: "char \<Rightarrow> char" where
  "toUpperCase c = (if is_lower c then char_of ((of_char c :: nat) - 32) else c)"

subsection \<open>Values\<close>

text \<open>
  The values that reach the configuration object and the build request. \<open>JNum q\<close> is
  the double nearest to the rational \<open>q\<close>: \<^verbatim>\<open>parseInt\<close> and \<^verbatim>\<open>parseFloat\<close> give the
  double nearest to the decimal they read. An array has its elements, \<open>None\<close> for a
  hole, and like every object it can carry named properties, the second argument of
  \<open>JArr\<close>. \<open>JPlugin\<close> is the plugin object, opaque here. A value records the elements
  and the own properties of an object. Its prototype is recorded for the configuration
  object alone (see \<open>pstate\<close> below), the one object whose properties the program reads.
\<close>

datatype jsvalue =
    JBool bool
  | JNum rat
  | JStr string
  | JArr "jsvalue option list" "string \<Rightarrow> jsvalue option"
  | JObj "string \<Rightarrow> jsvalue option"
  | JPlugin

type_synonym config = "string \<Rightarrow> jsvalue option"


text \<open>\<^verbatim>\<open>typeof v === "object" && v !== null\<close>\<close>

fun is_object :: "jsvalue \<Rightarrow> bool" where
  "is_object (JArr xs ps) = True"
| "is_object (JObj m) = True"
| "is_object JPlugin = True"
| "is_object v = False"

text \<open>An array of strings, as \<^verbatim>\<open>split\<close> and \<^verbatim>\<open>map\<close> make it.\<close>

definition string_array :: "string list \<Rightarrow> jsvalue" where
  "string_array xs = JArr (map (\<lambda>s. Some (JStr s)) xs) Map.empty"

subsection \<open>toCamelCase\<close>

text \<open>
  \<^verbatim>\<open>str.replace(/-([a-z])/g, (_, char) => char.toUpperCase())\<close>: scanning from the left,
  each hyphen that is followed by a lower-case letter is replaced, together with the
  letter, by the upper-case letter.
\<close>

fun toCamelCase :: "string \<Rightarrow> string" where
  "toCamelCase (c # d # s) =
     (if c = CHR ''-'' \<and> is_lower d then toUpperCase d # toCamelCase s
      else c # toCamelCase (d # s))"
| "toCamelCase s = s"

subsection \<open>parseValue\<close>

text \<open>\<^verbatim>\<open>/^\d+$/\<close>\<close>

definition all_digits :: "string \<Rightarrow> bool" where
  "all_digits s = (s \<noteq> [] \<and> list_all is_digit s)"

text \<open>\<^verbatim>\<open>/^\d*\.\d+$/\<close>: digits, one dot, at least one digit.\<close>

definition is_float :: "string \<Rightarrow> bool" where
  "is_float s =
     (case split_chr CHR ''.'' s of
        [a, b] \<Rightarrow> list_all is_digit a \<and> all_digits b
      | _ \<Rightarrow> False)"

text \<open>The value of a string of decimal digits.\<close>

definition digits_value :: "string \<Rightarrow> nat" where
  "digits_value s = foldl (\<lambda>n c. 10 * n + ((of_char c :: nat) - 48)) 0 s"

text \<open>\<^verbatim>\<open>parseInt(value, 10)\<close> on a string matched by \<^verbatim>\<open>/^\d+$/\<close>.\<close>

definition parseInt :: "string \<Rightarrow> rat" where
  "parseInt s = of_nat (digits_value s)"

text \<open>\<^verbatim>\<open>parseFloat(value)\<close> on a string matched by \<^verbatim>\<open>/^\d*\.\d+$/\<close>.\<close>

definition parseFloat :: "string \<Rightarrow> rat" where
  "parseFloat s =
     (case split_chr CHR ''.'' s of
        a # b # _ \<Rightarrow> of_nat (digits_value (a @ b)) / of_nat (10 ^ length b)
      | _ \<Rightarrow> 0)"

definition parseValue :: "string \<Rightarrow> jsvalue" where
  "parseValue v =
     (if v = ''true'' then JBool True
      else if v = ''false'' then JBool False
      else if all_digits v then JNum (parseInt v)
      else if is_float v then JNum (parseFloat v)
      else if includes_chr v CHR '','' then string_array (map trim (split_chr CHR '','' v))
      else JStr v)"

subsection \<open>Objects and their properties\<close>

text \<open>
  What the parser needs of the JavaScript engine and the program does not define. For a
  write to \<^verbatim>\<open>length\<close> of an array, \<open>to_length v\<close> is the new length, \<^verbatim>\<open>ToUint32(v)\<close>,
  when it equals \<^verbatim>\<open>ToNumber(v)\<close>, and \<open>None\<close> when it does not and the write raises
  \<^verbatim>\<open>RangeError\<close>. \<open>array_prototype_has p\<close> says that \<^verbatim>\<open>Array.prototype\<close> has a
  property named \<open>p\<close>: a method, or its \<^verbatim>\<open>length\<close>.
\<close>

record engine =
  to_length :: "jsvalue \<Rightarrow> nat option"
  array_prototype_has :: "string \<Rightarrow> bool"

text \<open>The exceptions that the parser can raise.\<close>

datatype stop = RangeError | TypeError

text \<open>
  An array index: a string of digits without a leading zero whose value is below
  \<open>2 ^ 32 - 1\<close>. Any other name is an ordinary property name.
\<close>

definition array_index :: "string \<Rightarrow> nat option" where
  "array_index c =
     (if all_digits c \<and> (c = ''0'' \<or> hd c \<noteq> CHR ''0'') \<and> digits_value c < 2 ^ 32 - 1
      then Some (digits_value c) else None)"

text \<open>
  \<^verbatim>\<open>obj[c]\<close> as far as the own properties of \<open>obj\<close> go: an element or the length of
  an array, a named property. The plugin object is never read.
\<close>

fun get_own :: "jsvalue \<Rightarrow> string \<Rightarrow> jsvalue option" where
  "get_own (JArr xs ps) c =
     (if c = ''length'' then Some (JNum (of_nat (length xs)))
      else (case array_index c of
              Some i \<Rightarrow> if i < length xs then xs ! i else None
            | None \<Rightarrow> ps c))"
| "get_own (JObj m) c = m c"
| "get_own v c = None"

text \<open>
  \<^verbatim>\<open>obj[c] = v\<close> on an object that is not the configuration itself: the object after
  the assignment. The name \<^verbatim>\<open>__proto__\<close> reaches the accessor of \<^verbatim>\<open>Object.prototype\<close>,
  which changes the prototype of \<open>obj\<close> when \<open>v\<close> is an object and does nothing
  otherwise: no own property changes. On an array, \<^verbatim>\<open>length\<close> cuts the array or
  extends it with holes, or raises \<^verbatim>\<open>RangeError\<close>, and an index writes the element,
  extending the array with holes up to it. Every other write sets a named property.
\<close>

fun set_own :: "engine \<Rightarrow> jsvalue \<Rightarrow> string \<Rightarrow> jsvalue \<Rightarrow> stop + jsvalue" where
  "set_own eng (JArr xs ps) c v =
     (if c = ''__proto__'' then Inr (JArr xs ps)
      else if c = ''length'' then
        (case to_length eng v of
           None \<Rightarrow> Inl RangeError
         | Some n \<Rightarrow> Inr (JArr (take n xs @ replicate (n - length xs) None) ps))
      else (case array_index c of
              Some i \<Rightarrow> Inr (JArr ((xs @ replicate (Suc i - length xs) None)[i := Some v]) ps)
            | None \<Rightarrow> Inr (JArr xs (ps(c \<mapsto> v)))))"
| "set_own eng (JObj m) c v =
     (if c = ''__proto__'' then Inr (JObj m) else Inr (JObj (m(c \<mapsto> v))))"
| "set_own eng obj c v = Inr obj"

subsection \<open>The configuration object\<close>

text \<open>
  The configuration is a plain object, \<^verbatim>\<open>Record<string, unknown>\<close>. The parser reads
  its properties with \<^verbatim>\<open>config[parentKey]\<close>, which follows the prototype chain, and a
  flag named \<^verbatim>\<open>__proto__\<close> changes that chain. So the state of the parser is
  \<^item> \<open>own\<close>: the own properties of the configuration;
  \<^item> \<open>proto\<close>: its prototype, \<open>None\<close> for \<^verbatim>\<open>Object.prototype\<close>, or the object that
    \<^verbatim>\<open>config.__proto__ = v\<close> installed;
  \<^item> \<open>proto_proto\<close>: the prototype of that object, \<open>None\<close> for the one it was made
    with (\<^verbatim>\<open>Array.prototype\<close> for an array), or the object installed in its place;
  \<^item> \<open>object_prototype\<close>: the properties that the parser has written to
    \<^verbatim>\<open>Object.prototype\<close>.
  An array found on the chain that becomes an own property is written to through the own
  property from then on; what the chain holds under that name is not read again.
\<close>

record pstate =
  own :: config
  proto :: "jsvalue option"
  proto_proto :: "jsvalue option"
  object_prototype :: config

definition initial :: pstate where
  "initial = \<lparr>own = Map.empty, proto = None, proto_proto = None, object_prototype = Map.empty\<rparr>"

text \<open>
  What \<^verbatim>\<open>config[p]\<close> finds above the own properties, for \<open>p\<close> other than
  \<^verbatim>\<open>__proto__\<close>: the first of the prototype, its prototype, \<^verbatim>\<open>Array.prototype\<close> when
  the prototype is an array, and \<^verbatim>\<open>Object.prototype\<close> that has the property. A method
  of the engine is a function, not an object and not a string, and counts as nothing.
\<close>

definition inherited :: "engine \<Rightarrow> pstate \<Rightarrow> string \<Rightarrow> jsvalue option" where
  "inherited eng st p =
     (case proto st of
        None \<Rightarrow> object_prototype st p
      | Some a \<Rightarrow>
          (case get_own a p of
             Some v \<Rightarrow> Some v
           | None \<Rightarrow>
               (case (case proto_proto st of None \<Rightarrow> None | Some b \<Rightarrow> get_own b p) of
                  Some v \<Rightarrow> Some v
                | None \<Rightarrow>
                    if array_prototype_has eng p then None else object_prototype st p)))"

text \<open>\<^verbatim>\<open>config[p]\<close> for \<open>p\<close> other than \<^verbatim>\<open>__proto__\<close>\<close>

definition lookup :: "engine \<Rightarrow> pstate \<Rightarrow> string \<Rightarrow> jsvalue option" where
  "lookup eng st p = (case own st p of Some v \<Rightarrow> Some v | None \<Rightarrow> inherited eng st p)"

subsection \<open>parseArgs\<close>

text \<open>
  What one iteration of the loop does to the configuration: nothing, the assignment
  \<^verbatim>\<open>config[key] = v\<close>, the nested assignment to \<^verbatim>\<open>config[parentKey][childKey]\<close>, or
  an exception.
\<close>

datatype action =
    NoWrite
  | SetKey string jsvalue
  | SetChild string string jsvalue
  | Raise stop

text \<open>
  \<^verbatim>\<open>config[k] = v\<close>. Under the name \<^verbatim>\<open>__proto__\<close> an object becomes the prototype of
  the configuration and any other value is ignored.
\<close>

definition set_key :: "pstate \<Rightarrow> string \<Rightarrow> jsvalue \<Rightarrow> pstate" where
  "set_key st k v =
     (if k = ''__proto__'' then
        (if is_object v then st\<lparr>proto := Some v, proto_proto := None\<rparr> else st)
      else st\<lparr>own := (own st)(k \<mapsto> v)\<rparr>)"

text \<open>
  Lines 105 to 114. \<^verbatim>\<open>existing\<close> is kept when
  \<^verbatim>\<open>typeof existing === "object" && existing !== null\<close>, which holds of a nested
  object and of an array alike, and is replaced by \<^verbatim>\<open>{}\<close> otherwise; then the child is
  written to it. When the parent is \<^verbatim>\<open>__proto__\<close>, \<^verbatim>\<open>existing\<close> is the prototype of the
  configuration: \<^verbatim>\<open>Object.prototype\<close>, whose own prototype cannot be changed
  (\<^verbatim>\<open>TypeError\<close>), or the object installed before.
\<close>

definition set_child :: "engine \<Rightarrow> pstate \<Rightarrow> string \<Rightarrow> string \<Rightarrow> jsvalue \<Rightarrow> stop + pstate" where
  "set_child eng st p c v =
     (if p = ''__proto__'' then
        (case proto st of
           None \<Rightarrow>
             (if c = ''__proto__'' then (if is_object v then Inl TypeError else Inr st)
              else Inr (st\<lparr>object_prototype := (object_prototype st)(c \<mapsto> v)\<rparr>))
         | Some a \<Rightarrow>
             (if c = ''__proto__'' then
                Inr (if is_object v then st\<lparr>proto_proto := Some v\<rparr> else st)
              else (case set_own eng a c v of
                      Inl e \<Rightarrow> Inl e
                    | Inr a' \<Rightarrow> Inr (st\<lparr>proto := Some a'\<rparr>))))
      else
        (let existing = (case lookup eng st p of
                           None \<Rightarrow> JObj Map.empty
                         | Some e \<Rightarrow> if is_object e then e else JObj Map.empty)
         in case set_own eng existing c v of
              Inl e \<Rightarrow> Inl e
            | Inr e' \<Rightarrow> Inr (st\<lparr>own := (own st)(p \<mapsto> e')\<rparr>)))"

fun perform :: "engine \<Rightarrow> pstate \<Rightarrow> action \<Rightarrow> stop + pstate" where
  "perform eng st NoWrite = Inr st"
| "perform eng st (Raise e) = Inl e"
| "perform eng st (SetKey k v) = Inr (set_key st k v)"
| "perform eng st (SetChild p c v) = set_child eng st p c v"

text \<open>
  Lines 91 to 100: the key and the raw value of a flag that is neither negated nor
  standalone, and the arguments left after it. With \<^verbatim>\<open>=\<close> in the flag, they are the
  first two elements of \<^verbatim>\<open>arg.slice(2).split("=", 2)\<close>; without, the value is the next
  argument, \<^verbatim>\<open>args[++i] ?? ""\<close>. Fewer than two elements would leave \<^verbatim>\<open>value\<close>
  undefined and raise \<^verbatim>\<open>TypeError\<close> at its first use; it does not happen
  (\<open>token_write_never_raises\<close> below).
\<close>

definition key_value :: "string \<Rightarrow> string list \<Rightarrow> stop + (string \<times> string \<times> string list)" where
  "key_value arg rest =
     (if includes_chr arg CHR ''='' then
        (case split_limit CHR ''='' 2 (drop 2 arg) of
           [k, v] \<Rightarrow> Inr (k, v, rest)
         | _ \<Rightarrow> Inl TypeError)
      else
        (case rest of
           [] \<Rightarrow> Inr (drop 2 arg, [], [])
         | v # r \<Rightarrow> Inr (drop 2 arg, v, r)))"

text \<open>Lines 104 to 114: where the value of a camel-cased key goes.\<close>

definition store :: "string \<Rightarrow> string \<Rightarrow> action" where
  "store key v =
     (if includes_chr key CHR ''.'' then
        (case split_chr CHR ''.'' key of
           p # c # _ \<Rightarrow> if p \<noteq> [] \<and> c \<noteq> [] then SetChild p c (parseValue v) else NoWrite
         | _ \<Rightarrow> NoWrite)
      else SetKey key (parseValue v))"

text \<open>
  The body of the loop at the argument \<open>arg\<close>, with \<open>rest\<close> the arguments after it:
  the write it makes and the arguments left for the next iterations.
\<close>

definition token_write :: "string \<Rightarrow> string list \<Rightarrow> action \<times> string list" where
  "token_write arg rest =
     (if \<not> startsWith arg ''--'' then (NoWrite, rest)
      else if startsWith arg ''--no-'' then
        (SetKey (toCamelCase (drop 5 arg)) (JBool False), rest)
      else if \<not> includes_chr arg CHR ''='' \<and>
              (case rest of [] \<Rightarrow> True | n # _ \<Rightarrow> startsWith n ''--'') then
        (SetKey (toCamelCase (drop 2 arg)) (JBool True), rest)
      else
        (case key_value arg rest of
           Inl e \<Rightarrow> (Raise e, rest)
         | Inr (key, v, rest') \<Rightarrow> (store (toCamelCase key) v, rest')))"

function parse_loop :: "engine \<Rightarrow> pstate \<Rightarrow> string list \<Rightarrow> stop + pstate" where
  "parse_loop eng st [] = Inr st"
| "parse_loop eng st (arg # rest) =
     (case token_write arg rest of
        (w, rest') \<Rightarrow>
          (case perform eng st w of
             Inl e \<Rightarrow> Inl e
           | Inr st' \<Rightarrow> parse_loop eng st' rest'))"
  by pat_completeness auto
termination
  apply (relation "measure (\<lambda>(eng, st, args). length args)")
   apply simp
  apply (auto simp: token_write_def key_value_def split: if_splits sum.splits list.splits)
  done

text \<open>
  \<^verbatim>\<open>parseArgs()\<close>, with \<^verbatim>\<open>process.argv\<close> as its argument: the configuration object
  as the loop leaves it, and its own properties.
\<close>

definition parse_state :: "engine \<Rightarrow> string list \<Rightarrow> stop + pstate" where
  "parse_state eng argv = parse_loop eng initial (drop 2 argv)"

definition parseArgs :: "engine \<Rightarrow> string list \<Rightarrow> stop + config" where
  "parseArgs eng argv =
     (case parse_state eng argv of Inl e \<Rightarrow> Inl e | Inr st \<Rightarrow> Inr (own st))"

text \<open>
  The assignments the loop makes for an argument vector, in order, and what a sequence
  of assignments does to a configuration. \<open>parse_loop\<close> is the second after the first
  (\<open>parse_loop_assignments\<close> below).
\<close>

function assignments :: "string list \<Rightarrow> action list" where
  "assignments [] = []"
| "assignments (arg # rest) =
     (case token_write arg rest of (w, rest') \<Rightarrow> w # assignments rest')"
  by pat_completeness auto
termination
  apply (relation "measure length")
   apply simp
  apply (auto simp: token_write_def key_value_def split: if_splits sum.splits list.splits)
  done

fun perform_all :: "engine \<Rightarrow> pstate \<Rightarrow> action list \<Rightarrow> stop + pstate" where
  "perform_all eng st [] = Inr st"
| "perform_all eng st (w # ws) =
     (case perform eng st w of
        Inl e \<Rightarrow> Inl e
      | Inr st' \<Rightarrow> perform_all eng st' ws)"

subsection \<open>formatFileSize\<close>

text \<open>
  \<open>bytes\<close> is a byte count, a natural number below \<open>2 ^ 53\<close>, which a double holds
  exactly. Dividing a double by 1024 changes its exponent only, so every value of
  \<^verbatim>\<open>size\<close> (here \<open>sz\<close>) is the exact quotient and the arithmetic is modelled on rationals.
\<close>

definition units :: "string list" where
  "units = [''B'', ''KB'', ''MB'', ''GB'']"

text \<open>The \<^verbatim>\<open>while\<close> loop, from \<^verbatim>\<open>size\<close> and \<^verbatim>\<open>unitIndex\<close> to their final values.\<close>

function size_loop :: "rat \<Rightarrow> nat \<Rightarrow> rat \<times> nat" where
  "size_loop sz unitIndex =
     (if sz \<ge> 1024 \<and> unitIndex < length units - 1
      then size_loop (sz / 1024) (unitIndex + 1)
      else (sz, unitIndex))"
  by pat_completeness auto
termination
  by (relation "measure (\<lambda>(sz, unitIndex). length units - 1 - unitIndex)") auto

declare size_loop.simps [simp del]

text \<open>The decimal digits of a natural number, as \<^verbatim>\<open>ToString\<close> writes an integer.\<close>

definition digit_char :: "nat \<Rightarrow> char" where
  "digit_char d = char_of (48 + d)"

function decimal :: "nat \<Rightarrow> string" where
  "decimal n = (if n < 10 then [digit_char n] else decimal (n div 10) @ [digit_char (n mod 10)])"
  by pat_completeness auto
termination
  by (relation "measure id") auto

declare decimal.simps [simp del]

text \<open>
  \<^verbatim>\<open>x.toFixed(f)\<close> for \<open>0 \<le> x < 10 ^ 21\<close>: with \<open>n\<close> the integer for which
  \<open>n / 10 ^ f\<close> is nearest to \<open>x\<close> (the larger one of two), the digits of \<open>n\<close> with a
  decimal point before the last \<open>f\<close> of them, padded with zeros on the left to
  \<open>f + 1\<close> digits.
\<close>

definition toFixed :: "rat \<Rightarrow> nat \<Rightarrow> string" where
  "toFixed x f =
     (let n = nat \<lfloor>x * 10 ^ f + 1 / 2\<rfloor>;
          frac = decimal (n mod 10 ^ f)
      in if f = 0 then decimal n
         else decimal (n div 10 ^ f) @ ''.'' @ replicate (f - length frac) CHR ''0'' @ frac)"

definition formatFileSize :: "nat \<Rightarrow> string" where
  "formatFileSize bytes =
     (case size_loop (of_nat bytes) 0 of
        (sz, unitIndex) \<Rightarrow> toFixed sz 2 @ '' '' @ units ! unitIndex)"

subsection \<open>buildProgram\<close>

text \<open>
  What the program uses and does not define: the working directory, three functions of
  the \<^verbatim>\<open>path\<close> module, the file system service, the glob scan of \<^verbatim>\<open>src\<close>,
  \<^verbatim>\<open>Bun.build\<close> and the JavaScript engine. Each is a field of the environment and says
  what the call answers: a failure of an effect or a thrown value on the left, the result
  on the right.
\<close>

datatype platform_error = PlatformError string

datatype thrown = Thrown string

record artifact =
  artifact_path :: string
  artifact_kind :: string
  artifact_size :: nat

record build_output =
  outputs :: "artifact list"

record environment =
  js :: engine
  cwd :: string
  path_join :: "string \<Rightarrow> string \<Rightarrow> string"
  path_resolve :: "string \<Rightarrow> string \<Rightarrow> string"
  path_relative :: "string \<Rightarrow> string \<Rightarrow> string"
  fs_exists :: "string \<Rightarrow> platform_error + bool"
  fs_remove :: "string \<Rightarrow> platform_error option"
  glob_scan :: "thrown + string list"
  bun_build :: "config \<Rightarrow> thrown + build_output"

text \<open>The \<^verbatim>\<open>cause\<close> objects of the two tagged errors, and the ways the program fails.\<close>

record clean_cause =
  clean_directory :: string
  clean_originalError :: platform_error

record build_cause =
  build_originalError :: thrown
  build_entrypoints :: "string list"
  build_outdir :: string
  build_config :: config

datatype failure =
    CleanError string clean_cause
  | BuildError string build_cause
  | Platform platform_error
  | Die_parse stop
  | Die thrown

text \<open>A row of the table that the program prints.\<close>

record output_row =
  row_File :: string
  row_Type :: string
  row_Size :: string

text \<open>
  The calls the program makes to the outside, in the order it makes them. The console
  messages are named after what they announce; the elapsed time is left out.
\<close>

datatype event =
    Log_starting
  | Fs_exists string
  | Log_cleaning string
  | Fs_remove string
  | Glob_scan
  | Log_found nat
  | Bun_build config
  | Log_build_output
  | Console_table "output_row list"
  | Log_completed

text \<open>
  Line 144. \<^verbatim>\<open>cliConfig.outdir\<close> reads the property of the configuration object, its
  own or one found on its prototype chain.
\<close>

definition outdir_of :: "environment \<Rightarrow> pstate \<Rightarrow> string" where
  "outdir_of env cliConfig =
     (case lookup (js env) cliConfig ''outdir'' of
        Some (JStr s) \<Rightarrow> s
      | _ \<Rightarrow> path_join env (cwd env) ''dist'')"

text \<open>Lines 147 to 156.\<close>

definition clean :: "environment \<Rightarrow> string \<Rightarrow> event list \<times> (failure + unit)" where
  "clean env outdir =
     (case fs_exists env outdir of
        Inl e \<Rightarrow> ([Fs_exists outdir], Inl (Platform e))
      | Inr False \<Rightarrow> ([Fs_exists outdir], Inr ())
      | Inr True \<Rightarrow>
          (case fs_remove env outdir of
             Some e \<Rightarrow>
               ([Fs_exists outdir, Log_cleaning outdir, Fs_remove outdir],
                Inl (CleanError (''Failed to clean directory: '' @ outdir)
                       \<lparr>clean_directory = outdir, clean_originalError = e\<rparr>))
           | None \<Rightarrow> ([Fs_exists outdir, Log_cleaning outdir, Fs_remove outdir], Inr ())))"

text \<open>Lines 161 to 163, on the files the scan found.\<close>

definition discover :: "environment \<Rightarrow> string list \<Rightarrow> string list" where
  "discover env files =
     filter (\<lambda>dir. \<not> includes_str dir ''node_modules'') (map (path_resolve env ''src'') files)"

text \<open>
  Lines 169 to 180: the properties written out in the object literal, then
  \<^verbatim>\<open>...cliConfig\<close>, which copies every own property of \<^verbatim>\<open>cliConfig\<close> over them.
\<close>

definition build_defaults :: "string list \<Rightarrow> string \<Rightarrow> config" where
  "build_defaults entrypoints outdir =
     [''entrypoints'' \<mapsto> string_array entrypoints,
      ''outdir'' \<mapsto> JStr outdir,
      ''plugins'' \<mapsto> JArr [Some JPlugin] Map.empty,
      ''minify'' \<mapsto> JBool True,
      ''target'' \<mapsto> JStr ''browser'',
      ''sourcemap'' \<mapsto> JStr ''linked'',
      ''define'' \<mapsto> JObj [''process.env.NODE_ENV'' \<mapsto> JStr (CHR 0x22 # ''production'' @ [CHR 0x22])]]"

definition build_request :: "string list \<Rightarrow> string \<Rightarrow> config \<Rightarrow> config" where
  "build_request entrypoints outdir cliConfig = build_defaults entrypoints outdir ++ cliConfig"

text \<open>Lines 195 to 199.\<close>

definition outputTable :: "environment \<Rightarrow> build_output \<Rightarrow> output_row list" where
  "outputTable env result =
     map (\<lambda>output. \<lparr>row_File = path_relative env (cwd env) (artifact_path output),
                     row_Type = artifact_kind output,
                     row_Size = formatFileSize (artifact_size output)\<rparr>)
         (outputs result)"

text \<open>
  The generator of \<^verbatim>\<open>buildProgram\<close>, run on \<^verbatim>\<open>process.argv\<close>: the calls it made
  and how it ended. An exception thrown inside the generator ends it at once. The
  \<^verbatim>\<open>config\<close> of a \<open>BuildError\<close> is the configuration object, given by its own
  properties.
\<close>

definition buildProgram :: "environment \<Rightarrow> string list \<Rightarrow> event list \<times> (failure + build_output)" where
  "buildProgram env argv =
     (case parse_state (js env) argv of
        Inl s \<Rightarrow> ([Log_starting], Inl (Die_parse s))
      | Inr cliConfig \<Rightarrow>
          (let outdir = outdir_of env cliConfig in
           case clean env outdir of
             (cleaning, Inl f) \<Rightarrow> (Log_starting # cleaning, Inl f)
           | (cleaning, Inr _) \<Rightarrow>
               (case glob_scan env of
                  Inl t \<Rightarrow> (Log_starting # cleaning @ [Glob_scan], Inl (Die t))
                | Inr files \<Rightarrow>
                    (let entrypoints = discover env files;
                         request = build_request entrypoints outdir (own cliConfig);
                         before = Log_starting # cleaning @
                                    [Glob_scan, Log_found (length entrypoints), Bun_build request]
                     in case bun_build env request of
                          Inl t \<Rightarrow>
                            (before,
                             Inl (BuildError ''Build failed''
                                    \<lparr>build_originalError = t,
                                     build_entrypoints = entrypoints,
                                     build_outdir = outdir,
                                     build_config = own cliConfig\<rparr>))
                        | Inr result \<Rightarrow>
                            (before @ [Log_build_output, Console_table (outputTable env result),
                                       Log_completed],
                             Inr result)))))"

subsection \<open>Assignments that leave a negated flag alone\<close>

text \<open>
  An assignment leaves the key \<open>k\<close> alone, where \<open>k\<close> holds \<^verbatim>\<open>false\<close>, when it
  writes to another key or writes \<^verbatim>\<open>false\<close> to \<open>k\<close> again.
\<close>

definition leaves_false :: "string \<Rightarrow> action \<Rightarrow> bool" where
  "leaves_false k w =
     (case w of
        SetKey k' v \<Rightarrow> k' \<noteq> k \<or> v = JBool False
      | SetChild p c v \<Rightarrow> p \<noteq> k
      | _ \<Rightarrow> True)"

subsection \<open>An environment for the examples\<close>

text \<open>
  An engine given by what it answers on the values and the names below: the length that
  a boolean, a number or the empty string stands for, and the properties of
  \<^verbatim>\<open>Array.prototype\<close> in ECMAScript 2023.
\<close>

definition example_engine :: engine where
  "example_engine =
     \<lparr>to_length = (\<lambda>v. case v of
          JBool b \<Rightarrow> Some (if b then 1 else 0)
        | JNum q \<Rightarrow> if q = of_int \<lfloor>q\<rfloor> \<and> 0 \<le> q \<and> q < 2 ^ 32 then Some (nat \<lfloor>q\<rfloor>) else None
        | JStr s \<Rightarrow> if s = [] then Some 0 else None
        | _ \<Rightarrow> None),
      array_prototype_has = (\<lambda>p. p \<in> set
        [''length'', ''constructor'', ''at'', ''concat'', ''copyWithin'', ''fill'', ''find'',
         ''findIndex'', ''findLast'', ''findLastIndex'', ''lastIndexOf'', ''pop'', ''push'',
         ''reverse'', ''shift'', ''unshift'', ''slice'', ''sort'', ''splice'', ''includes'',
         ''indexOf'', ''join'', ''keys'', ''entries'', ''values'', ''forEach'', ''filter'',
         ''flat'', ''flatMap'', ''map'', ''every'', ''some'', ''reduce'', ''reduceRight'',
         ''toLocaleString'', ''toString'', ''toReversed'', ''toSorted'', ''toSpliced'',
         ''with''])\<rparr>"

text \<open>
  A working directory \<^verbatim>\<open>/app\<close> whose \<^verbatim>\<open>src\<close> holds two HTML files, no output
  directory yet, and a \<^verbatim>\<open>Bun.build\<close> that throws. The path functions are given by
  what they answer on the paths of this environment. The variants below differ in one or
  two answers.
\<close>

definition example_env :: environment where
  "example_env =
     \<lparr>js = example_engine,
      cwd = ''/app'',
      path_join = (\<lambda>a b. a @ ''/'' @ b),
      path_resolve = (\<lambda>a b. ''/app/'' @ a @ ''/'' @ b),
      path_relative = (\<lambda>a b. drop (length a + 1) b),
      fs_exists = (\<lambda>d. Inr False),
      fs_remove = (\<lambda>d. None),
      glob_scan = Inr [''index.html'', ''admin.html''],
      bun_build = (\<lambda>request. Inl (Thrown ''bundle failed''))\<rparr>"

text \<open>The output directory exists and cannot be removed.\<close>

definition locked_env :: environment where
  "locked_env =
     example_env\<lparr>fs_exists := (\<lambda>d. Inr True),
                  fs_remove := (\<lambda>d. Some (PlatformError ''EACCES''))\<rparr>"

text \<open>\<^verbatim>\<open>Bun.build\<close> returns one artifact.\<close>

definition building_env :: environment where
  "building_env =
     example_env\<lparr>bun_build := (\<lambda>request.
        Inr \<lparr>outputs = [\<lparr>artifact_path = ''/app/dist/index.html'',
                           artifact_kind = ''entry-point'',
                           artifact_size = 1536\<rparr>]\<rparr>)\<rparr>"

section \<open>Properties\<close>

subsection \<open>Evaluating the parser\<close>

lemmas parse_eval =
  parseArgs_def parse_state_def initial_def token_write_def key_value_def store_def
  startsWith_def includes_chr_def split_limit_def parseValue_def string_array_def all_digits_def
  is_float_def is_digit_def is_lower_def toUpperCase_def set_key_def set_child_def lookup_def
  inherited_def array_index_def trim_def is_space_def parseInt_def parseFloat_def
  digits_value_def char_of_def bit_0

subsection \<open>Splitting strings\<close>

lemma split_chr_nonempty: "split_chr c s \<noteq> []"
  by (induction s) (auto split: list.splits)

lemma split_chr_covers: "x \<in> set s \<Longrightarrow> x \<noteq> c \<Longrightarrow> \<exists>p \<in> set (split_chr c s). x \<in> set p"
  by (induction s) (auto split: list.splits simp: split_chr_nonempty)

lemma split_chr_two:
  "split_chr c s = p # q # qs \<Longrightarrow> \<exists>s'. s = p @ c # s'"
proof (induction s arbitrary: p)
  case Nil
  then show ?case by simp
next
  case (Cons x s)
  then show ?case by (auto split: if_splits list.splits)
qed

lemma split_chr_at_separator:
  "c \<in> set s \<Longrightarrow> \<exists>p q qs. split_chr c s = p # q # qs"
proof (induction s)
  case Nil
  then show ?case by simp
next
  case (Cons x s)
  show ?case
  proof (cases "x = c")
    case True
    then show ?thesis using split_chr_nonempty [of c s] by (cases "split_chr c s") auto
  next
    case False
    with Cons show ?thesis by auto
  qed
qed

lemma split_limit_two:
  "split_limit c 2 s = [k, v] \<Longrightarrow> \<exists>s'. s = k @ c # s'"
proof -
  assume a: "split_limit c 2 s = [k, v]"
  have "\<exists>qs. split_chr c s = k # v # qs"
  proof (cases "split_chr c s")
    case Nil
    with a show ?thesis by (simp add: split_limit_def)
  next
    case (Cons x xs)
    with a show ?thesis
      by (cases xs) (simp_all add: split_limit_def numeral_2_eq_2)
  qed
  then show ?thesis using split_chr_two by blast
qed

lemma startsWith_dashes: "startsWith t ''--'' \<Longrightarrow> t = ''--'' @ drop 2 t"
proof -
  assume "startsWith t ''--''"
  then have "take 2 t = ''--''" by (simp add: startsWith_def numeral_2_eq_2)
  then show ?thesis using append_take_drop_id [of 2 t] by simp
qed

subsection \<open>Value coercion\<close>

lemma comma_not_digit: "\<not> is_digit CHR '',''"
  by (simp add: is_digit_def)

lemma comma_not_float: "CHR '','' \<in> set v \<Longrightarrow> \<not> is_float v"
proof
  assume c: "CHR '','' \<in> set v" and f: "is_float v"
  from f obtain a b where ab: "split_chr CHR ''.'' v = [a, b]" and
    d: "list_all is_digit a" "list_all is_digit b"
    by (auto simp: is_float_def all_digits_def split: list.splits)
  from c obtain p where "p \<in> set (split_chr CHR ''.'' v)" "CHR '','' \<in> set p"
    using split_chr_covers [of "CHR '',''" v "CHR ''.''"] by auto
  with ab d show False
    by (auto simp: list_all_iff comma_not_digit)
qed

text \<open>
  C7. For every raw string that contains a comma, \<open>parseValue\<close> returns the array of
  its comma-separated pieces, each trimmed. The elements of the array are strings: an
  element such as \<^verbatim>\<open>1\<close> or \<^verbatim>\<open>true\<close> is not turned into a number or a boolean.
\<close>

theorem parseValue_comma_list:
  "includes_chr v CHR '','' \<Longrightarrow>
     parseValue v = JArr (map (\<lambda>s. Some (JStr (trim s))) (split_chr CHR '','' v)) Map.empty"
proof -
  assume "includes_chr v CHR '',''"
  then have c: "CHR '','' \<in> set v" by (simp add: includes_chr_def)
  then have "\<not> all_digits v"
    using comma_not_digit by (auto simp: all_digits_def list_all_iff)
  moreover have "\<not> is_float v" using c by (rule comma_not_float)
  moreover have "v \<noteq> ''true''" "v \<noteq> ''false''" using c by auto
  ultimately show ?thesis using c
    by (simp add: parseValue_def includes_chr_def string_array_def comp_def)
qed

theorem parseValue_comma_list_witness:
  "includes_chr ''1, true ,x'' CHR '','' \<and>
   parseValue ''1, true ,x'' =
     JArr [Some (JStr ''1''), Some (JStr ''true''), Some (JStr ''x'')] Map.empty"
  using parseValue_comma_list [of "''1, true ,x''"]
  by (simp add: includes_chr_def trim_def is_space_def)

subsection \<open>The argument parser on single vectors\<close>

text \<open>
  C1. The claim says that \<^verbatim>\<open>--banner=a=b\<close> stores \<^verbatim>\<open>a=b\<close> under \<^verbatim>\<open>banner\<close>. The
  parser stores \<^verbatim>\<open>a\<close>: \<^verbatim>\<open>split("=", 2)\<close> keeps the first two pieces and drops what
  follows the second \<^verbatim>\<open>=\<close>. The other form, \<^verbatim>\<open>--banner a=b\<close>, stores \<^verbatim>\<open>a=b\<close>.
\<close>

theorem parseArgs_value_cut_at_second_equals:
  "parseArgs eng [''bun'', ''build.ts'', ''--banner=a=b''] = Inr [''banner'' \<mapsto> JStr ''a''] \<and>
   parseArgs eng [''bun'', ''build.ts'', ''--banner'', ''a=b''] =
     Inr [''banner'' \<mapsto> JStr ''a=b'']"
  by (simp add: parse_eval)

text \<open>
  C4. The claim says that a dotted key whose parent holds a list of strings replaces the
  list by a nested map. The parser keeps the array, since \<^verbatim>\<open>typeof\<close> of an array is
  \<^verbatim>\<open>"object"\<close>, and sets the child as a property of the array. A parent that holds
  \<^verbatim>\<open>true\<close> is replaced, as the claim says.
\<close>

theorem parseArgs_dotted_key_keeps_array:
  "parseArgs eng [''bun'', ''build.ts'', ''--external=a,b'', ''--external.x=1''] =
     Inr [''external'' \<mapsto> JArr [Some (JStr ''a''), Some (JStr ''b'')] [''x'' \<mapsto> JNum 1]] \<and>
   parseArgs eng [''bun'', ''build.ts'', ''--minify'', ''--minify.whitespace=true''] =
     Inr [''minify'' \<mapsto> JObj [''whitespace'' \<mapsto> JBool True]]"
  by (simp add: parse_eval)

subsection \<open>The loop as a sequence of assignments\<close>

lemma parse_loop_assignments: "parse_loop eng st args = perform_all eng st (assignments args)"
  by (induction eng st args rule: parse_loop.induct) (auto split: prod.splits sum.splits)

lemma perform_all_append:
  "perform_all eng st (xs @ ys) =
     (case perform_all eng st xs of Inl e \<Rightarrow> Inl e | Inr c \<Rightarrow> perform_all eng c ys)"
  by (induction xs arbitrary: st) (auto split: sum.splits)

lemma token_write_append:
  assumes "startsWith t ''--''"
  shows "token_write arg (rest @ t # post) =
           (fst (token_write arg rest), snd (token_write arg rest) @ t # post)"
  using assms
  by (cases rest) (auto simp: token_write_def key_value_def split: sum.splits list.splits)

lemma assignments_append:
  "startsWith t ''--'' \<Longrightarrow>
     assignments (pre @ t # post) = assignments pre @ assignments (t # post)"
proof (induction pre rule: assignments.induct)
  case 1
  then show ?case by simp
next
  case (2 arg rest)
  obtain w rest' where tw: "token_write arg rest = (w, rest')" by (cases "token_write arg rest")
  then have "token_write arg (rest @ t # post) = (w, rest' @ t # post)"
    using token_write_append [OF "2.prems", of arg rest post] by simp
  moreover have "assignments (rest' @ t # post) = assignments rest' @ assignments (t # post)"
    using "2.IH" [OF tw [symmetric] "2.prems"] .
  ultimately show ?case using tw by simp
qed

text \<open>No iteration raises \<^verbatim>\<open>TypeError\<close>: a flag with \<^verbatim>\<open>=\<close> splits in two pieces at least.\<close>

lemma token_write_never_raises: "fst (token_write arg rest) \<noteq> Raise e"
proof (cases "startsWith arg ''--'' \<and> includes_chr arg CHR ''=''")
  case True
  then have "arg = ''--'' @ drop 2 arg" using startsWith_dashes by blast
  moreover have "CHR ''='' \<in> set arg" using True by (simp add: includes_chr_def)
  ultimately have "CHR ''='' \<in> set (''--'' @ drop 2 arg)" by simp
  then have "CHR ''='' \<in> set (drop 2 arg)" by simp
  then obtain p q qs where "split_chr CHR ''='' (drop 2 arg) = p # q # qs"
    using split_chr_at_separator by blast
  then have "split_limit CHR ''='' 2 (drop 2 arg) = [p, q]"
    by (simp add: split_limit_def numeral_2_eq_2)
  then show ?thesis
    by (auto simp: token_write_def key_value_def store_def split: list.splits)
next
  case False
  then show ?thesis
    by (auto simp: token_write_def key_value_def store_def split: list.splits)
qed

subsection \<open>Nested maps\<close>

lemma token_write_rest_subset: "set (snd (token_write arg rest)) \<subseteq> set rest"
  by (auto simp: token_write_def key_value_def split: sum.splits list.splits)





lemma toCamelCase_equals:
  "toCamelCase (a @ CHR ''='' # b) = toCamelCase a @ CHR ''='' # toCamelCase b"
proof (induction a rule: toCamelCase.induct)
  case (1 c d s)
  then show ?case by simp
qed (cases b, simp_all add: is_lower_def)+










subsection \<open>Negated flags\<close>

lemma toUpperCase_upper:
  "is_lower d \<Longrightarrow> 65 \<le> (of_char (toUpperCase d) :: nat) \<and> (of_char (toUpperCase d) :: nat) \<le> 90"
proof -
  assume "is_lower d"
  then have r: "97 \<le> (of_char d :: nat)" "(of_char d :: nat) \<le> 122" by (simp_all add: is_lower_def)
  then have "((of_char d :: nat) - 32) mod 256 = of_char d - 32" by simp
  moreover have "65 \<le> (of_char d :: nat) - 32 \<and> (of_char d :: nat) - 32 \<le> 90"
    using r by arith
  ultimately show ?thesis using r by (simp add: toUpperCase_def is_lower_def)
qed

lemma toCamelCase_head:
  assumes "toCamelCase k = x # out"
    and "\<not> (65 \<le> (of_char x :: nat) \<and> (of_char x :: nat) \<le> 90)"
  shows "\<exists>k'. k = x # k' \<and> toCamelCase k' = out"
proof (cases k)
  case Nil
  with assms(1) show ?thesis by simp
next
  case (Cons c r)
  show ?thesis
  proof (cases r)
    case Nil
    with Cons assms(1) show ?thesis by simp
  next
    case (Cons d s)
    note k = \<open>k = c # r\<close> \<open>r = d # s\<close>
    show ?thesis
    proof (cases "c = CHR ''-'' \<and> is_lower d")
      case True
      with k assms(1) have "x = toUpperCase d" by simp
      with True assms(2) toUpperCase_upper [of d] show ?thesis by blast
    next
      case False
      with k assms(1) show ?thesis by auto
    qed
  qed
qed

lemma toCamelCase_prefix:
  "toCamelCase k = p @ out \<Longrightarrow>
   \<forall>x \<in> set p. \<not> (65 \<le> (of_char x :: nat) \<and> (of_char x :: nat) \<le> 90) \<Longrightarrow>
   \<exists>k'. k = p @ k' \<and> toCamelCase k' = out"
proof (induction p arbitrary: k)
  case Nil
  then show ?case by simp
next
  case (Cons x p)
  from Cons.prems obtain k1 where k1: "k = x # k1" "toCamelCase k1 = p @ out"
    using toCamelCase_head [of k x "p @ out"] by auto
  with Cons.IH [of k1] Cons.prems(2) show ?case by auto
qed

lemma toCamelCase_empty: "toCamelCase k = [] \<Longrightarrow> k = []"
  by (cases k rule: toCamelCase.cases) (auto split: if_splits)

lemma toCamelCase_splitting: "toCamelCase k = ''splitting'' \<Longrightarrow> k = ''splitting''"
  using toCamelCase_prefix [of k "''splitting''" "[]"] toCamelCase_empty by auto

lemma toCamelCase_splitting_parent:
  assumes "split_chr CHR ''.'' (toCamelCase k) = ''splitting'' # c # cs"
  shows "\<exists>k'. k = ''splitting.'' @ k'"
proof -
  from assms obtain s' where "toCamelCase k = ''splitting.'' @ s'"
    using split_chr_two [of "CHR ''.''" "toCamelCase k" "''splitting''" c cs] by auto
  then show ?thesis
    using toCamelCase_prefix [of k "''splitting.''" s'] by auto
qed

lemma store_writes_splitting:
  assumes "\<not> leaves_false ''splitting'' (store (toCamelCase k) v)"
  shows "k = ''splitting'' \<or> (\<exists>k'. k = ''splitting.'' @ k')"
proof (cases "includes_chr (toCamelCase k) CHR ''.''")
  case True
  with assms obtain c cs where "split_chr CHR ''.'' (toCamelCase k) = ''splitting'' # c # cs"
    by (auto simp: store_def leaves_false_def split: list.splits if_splits)
  then show ?thesis using toCamelCase_splitting_parent by blast
next
  case False
  with assms have "toCamelCase k = ''splitting''"
    by (auto simp: store_def leaves_false_def)
  then show ?thesis using toCamelCase_splitting by blast
qed

lemma token_write_leaves_splitting:
  assumes "t \<noteq> ''--splitting''" and "\<not> startsWith t ''--splitting=''"
    and "\<not> startsWith t ''--splitting.''"
  shows "leaves_false ''splitting'' (fst (token_write t rest))"
proof (rule ccontr)
  assume n: "\<not> leaves_false ''splitting'' (fst (token_write t rest))"
  then have d: "startsWith t ''--''" and nn: "\<not> startsWith t ''--no-''"
    by (auto simp: token_write_def leaves_false_def split: if_splits)
  note t = startsWith_dashes [OF d]
  show False
  proof (cases "\<not> includes_chr t CHR ''='' \<and>
              (case rest of [] \<Rightarrow> True | n # _ \<Rightarrow> startsWith n ''--'')")
    case True
    with n d nn have "toCamelCase (drop 2 t) = ''splitting''"
      by (auto simp: token_write_def leaves_false_def)
    then have "drop 2 t = ''splitting''" by (rule toCamelCase_splitting)
    with t assms(1) show False by simp
  next
    case False
    show False
    proof (cases "includes_chr t CHR ''=''")
      case True
      with n d nn False obtain k v where kv: "split_limit CHR ''='' 2 (drop 2 t) = [k, v]"
        and s: "\<not> leaves_false ''splitting'' (store (toCamelCase k) v)"
        by (auto simp: token_write_def key_value_def leaves_false_def split: list.splits)
      from kv obtain s' where "drop 2 t = k @ CHR ''='' # s'"
        using split_limit_two by blast
      with t have t': "t = ''--'' @ k @ CHR ''='' # s'" by simp
      from store_writes_splitting [OF s] show False
      proof
        assume "k = ''splitting''"
        with t' have "startsWith t ''--splitting=''" by (simp add: startsWith_def)
        with assms(2) show False by simp
      next
        assume "\<exists>k'. k = ''splitting.'' @ k'"
        with t' have "startsWith t ''--splitting.''" by (auto simp: startsWith_def)
        with assms(3) show False by simp
      qed
    next
      case nEq: False
      with n d nn False obtain v where
        s: "\<not> leaves_false ''splitting'' (store (toCamelCase (drop 2 t)) v)"
        by (auto simp: token_write_def key_value_def leaves_false_def split: list.splits)
      from store_writes_splitting [OF s] show False
      proof
        assume "drop 2 t = ''splitting''"
        with t assms(1) show False by simp
      next
        assume "\<exists>k'. drop 2 t = ''splitting.'' @ k'"
        then obtain k' where "drop 2 t = ''splitting.'' @ k'" by blast
        with t have "t = ''--splitting.'' @ k'" by simp
        then have "startsWith t ''--splitting.''" by (simp add: startsWith_def)
        with assms(3) show False by simp
      qed
    qed
  qed
qed

lemma assignments_leave_splitting:
  "\<forall>t \<in> set post. t \<noteq> ''--splitting'' \<and> \<not> startsWith t ''--splitting='' \<and>
       \<not> startsWith t ''--splitting.'' \<Longrightarrow>
   \<forall>w \<in> set (assignments post). leaves_false ''splitting'' w"
proof (induction post rule: assignments.induct)
  case 1
  then show ?case by simp
next
  case (2 arg rest)
  obtain w rest' where tw: "token_write arg rest = (w, rest')" by (cases "token_write arg rest")
  then have "set rest' \<subseteq> set rest" using token_write_rest_subset [of arg rest] by simp
  with "2.prems" have "\<forall>t \<in> set rest'. t \<noteq> ''--splitting'' \<and> \<not> startsWith t ''--splitting='' \<and>
       \<not> startsWith t ''--splitting.''" by auto
  then have "\<forall>w \<in> set (assignments rest'). leaves_false ''splitting'' w"
    using "2.IH" [OF tw [symmetric]] by simp
  moreover have "leaves_false ''splitting'' w"
    using token_write_leaves_splitting [of arg rest] "2.prems" tw by simp
  ultimately show ?case using tw by simp
qed

lemma perform_leaves_false:
  "own st k = Some (JBool False) \<Longrightarrow> leaves_false k w \<Longrightarrow> perform eng st w = Inr st' \<Longrightarrow>
     own st' k = Some (JBool False)"
  by (cases w)
     (auto simp: leaves_false_def set_key_def set_child_def Let_def
           split: if_splits option.splits sum.splits)

lemma perform_all_leaves_false:
  "own st k = Some (JBool False) \<Longrightarrow> \<forall>w \<in> set ws. leaves_false k w \<Longrightarrow>
     perform_all eng st ws = Inr st' \<Longrightarrow> own st' k = Some (JBool False)"
proof (induction ws arbitrary: st)
  case Nil
  then show ?case by simp
next
  case (Cons w ws)
  from Cons.prems(3) obtain c where c: "perform eng st w = Inr c" "perform_all eng c ws = Inr st'"
    by (auto split: sum.splits)
  with Cons.prems have "own c k = Some (JBool False)"
    using perform_leaves_false [of st k w eng c] by simp
  with Cons.IH [of c] Cons.prems(2) c(2) show ?case by simp
qed

lemma token_write_no_splitting:
  "token_write ''--no-splitting'' post = (SetKey ''splitting'' (JBool False), post)"
  by (simp add: token_write_def startsWith_def)

subsection \<open>When the parser returns\<close>

text \<open>When the parser returns: no write raises unless the child is \<^verbatim>\<open>length\<close> or \<^verbatim>\<open>__proto__\<close>.\<close>

lemma set_own_returns: "c \<noteq> ''length'' \<Longrightarrow> \<exists>obj'. set_own eng obj c v = Inr obj'"
  by (cases obj) (auto split: option.splits)

lemma perform_returns:
  assumes "\<forall>p c v. w = SetChild p c v \<longrightarrow> c \<noteq> ''length'' \<and> c \<noteq> ''__proto__''"
    and "\<forall>e. w \<noteq> Raise e"
  shows "\<exists>st'. perform eng st w = Inr st'"
proof (cases w)
  case (SetChild p c v)
  with assms(1) have c: "c \<noteq> ''length''" "c \<noteq> ''__proto__''" by auto
  show ?thesis
  proof (cases "p = ''__proto__''")
    case True
    show ?thesis
    proof (cases "proto st")
      case None
      with True c SetChild show ?thesis by (simp add: set_child_def)
    next
      case (Some a)
      obtain a' where "set_own eng a c v = Inr a'" using set_own_returns [OF c(1)] by blast
      with Some True c SetChild show ?thesis by (simp add: set_child_def)
    qed
  next
    case False
    let ?e = "case lookup eng st p of None \<Rightarrow> JObj Map.empty
              | Some e \<Rightarrow> if is_object e then e else JObj Map.empty"
    obtain e' where "set_own eng ?e c v = Inr e'" using set_own_returns [OF c(1)] by blast
    with False SetChild show ?thesis by (simp add: set_child_def Let_def)
  qed
qed (use assms(2) in auto)

lemma includes_str_infix: "includes_str (a @ p @ b) p"
proof (induction a)
  case Nil
  have "startsWith (p @ b) p" by (simp add: startsWith_def)
  then show ?case by (cases "p @ b") auto
next
  case (Cons x a)
  then show ?case by simp
qed

lemma split_chr_first: "split_chr c s = p # ps \<Longrightarrow> \<exists>b. s = p @ b"
proof (induction s arbitrary: p ps)
  case Nil
  then show ?case by simp
next
  case (Cons x s)
  show ?case
  proof (cases "x = c")
    case True
    with Cons.prems show ?thesis by auto
  next
    case False
    obtain p' ps' where ps: "split_chr c s = p' # ps'"
      using split_chr_nonempty [of c s] by (cases "split_chr c s") auto
    with Cons.IH obtain b where "s = p' @ b" by blast
    with False ps Cons.prems show ?thesis by auto
  qed
qed

lemma split_chr_piece: "q \<in> set (split_chr c s) \<Longrightarrow> \<exists>a b. s = a @ q @ b"
proof (induction s arbitrary: q)
  case Nil
  then show ?case by simp
next
  case (Cons x s)
  show ?case
  proof (cases "x = c")
    case True
    with Cons.prems have "q = [] \<or> q \<in> set (split_chr c s)" by auto
    then show ?thesis
    proof
      assume "q = []"
      then show ?thesis by auto
    next
      assume "q \<in> set (split_chr c s)"
      then obtain a b where "s = a @ q @ b" using Cons.IH by blast
      then have "x # s = (x # a) @ q @ b" by simp
      then show ?thesis by blast
    qed
  next
    case False
    obtain p ps where ps: "split_chr c s = p # ps"
      using split_chr_nonempty [of c s] by (cases "split_chr c s") auto
    with False Cons.prems have "q = x # p \<or> q \<in> set ps" by auto
    then show ?thesis
    proof
      assume q: "q = x # p"
      from ps have "\<exists>b'. s = p @ b'" by (rule split_chr_first)
      then obtain b' where "s = p @ b'" by blast
      with q have "x # s = [] @ q @ b'" by simp
      then show ?thesis by blast
    next
      assume "q \<in> set ps"
      with ps have "q \<in> set (split_chr c s)" by simp
      then obtain a b where "s = a @ q @ b" using Cons.IH by blast
      then have "x # s = (x # a) @ q @ b" by simp
      then show ?thesis by blast
    qed
  qed
qed

lemma toCamelCase_infix:
  "toCamelCase k = a @ p @ b \<Longrightarrow>
   \<forall>x \<in> set p. \<not> (65 \<le> (of_char x :: nat) \<and> (of_char x :: nat) \<le> 90) \<Longrightarrow>
   \<exists>a' b'. k = a' @ p @ b'"
proof (induction a arbitrary: k)
  case Nil
  then obtain k' where "k = p @ k'" using toCamelCase_prefix [of k p b] by auto
  then have "k = [] @ p @ k'" by simp
  then show ?case by blast
next
  case (Cons x a)
  show ?case
  proof (cases k)
    case Nil
    with Cons.prems(1) show ?thesis by simp
  next
    case k: (Cons c r)
    show ?thesis
    proof (cases r)
      case Nil
      with k Cons.prems(1) have "p = []" by simp
      then have "k = k @ p @ []" by simp
      then show ?thesis by blast
    next
      case r: (Cons d s)
      show ?thesis
      proof (cases "c = CHR ''-'' \<and> is_lower d")
        case True
        with k r Cons.prems(1) have "toCamelCase s = a @ p @ b" by simp
        then obtain a' b' where "s = a' @ p @ b'" using Cons.IH Cons.prems(2) by blast
        with k r have "k = (c # d # a') @ p @ b'" by simp
        then show ?thesis by blast
      next
        case False
        with k r Cons.prems(1) have "toCamelCase (d # s) = a @ p @ b" by auto
        then obtain a' b' where "d # s = a' @ p @ b'" using Cons.IH Cons.prems(2) by blast
        with k r have "k = (c # a') @ p @ b'" by simp
        then show ?thesis by blast
      qed
    qed
  qed
qed

lemma token_child_in_token:
  assumes "fst (token_write t rest) = SetChild p c v"
    and "\<forall>x \<in> set c. \<not> (65 \<le> (of_char x :: nat) \<and> (of_char x :: nat) \<le> 90)"
  shows "includes_str t c"
proof -
  from assms(1) have d: "startsWith t ''--''"
    by (auto simp: token_write_def split: if_splits)
  from assms(1) obtain key val rest' where kv: "key_value t rest = Inr (key, val, rest')"
    and st: "store (toCamelCase key) val = SetChild p c v"
    by (auto simp: token_write_def split: if_splits sum.splits)
  from st have "c \<in> set (split_chr CHR ''.'' (toCamelCase key))"
    by (auto simp: store_def split: if_splits list.splits)
  then obtain a b where "toCamelCase key = a @ c @ b" using split_chr_piece by blast
  then obtain a' b' where key: "key = a' @ c @ b'" using toCamelCase_infix assms(2) by blast
  have "\<exists>a2 b2. drop 2 t = a2 @ key @ b2"
  proof (cases "includes_chr t CHR ''=''")
    case True
    with kv have "split_limit CHR ''='' 2 (drop 2 t) = [key, val]"
      by (auto simp: key_value_def split: list.splits)
    then have "key \<in> set (take 2 (split_chr CHR ''='' (drop 2 t)))"
      by (simp add: split_limit_def)
    then have "key \<in> set (split_chr CHR ''='' (drop 2 t))" by (rule in_set_takeD)
    then show ?thesis by (rule split_chr_piece)
  next
    case False
    with kv have "key = drop 2 t" by (auto simp: key_value_def split: list.splits)
    then have "drop 2 t = [] @ key @ []" by simp
    then show ?thesis by blast
  qed
  then obtain a2 b2 where "drop 2 t = a2 @ key @ b2" by blast
  with key startsWith_dashes [OF d] have "t = (''--'' @ a2 @ a') @ c @ (b' @ b2)" by simp
  then show ?thesis using includes_str_infix [of "''--'' @ a2 @ a'" c "b' @ b2"] by simp
qed

lemma token_write_returns:
  assumes "\<not> includes_str t ''length''" and "\<not> includes_str t ''__proto__''"
  shows "\<exists>st'. perform eng st (fst (token_write t rest)) = Inr st'"
proof (rule perform_returns)
  show "\<forall>p c v. fst (token_write t rest) = SetChild p c v \<longrightarrow> c \<noteq> ''length'' \<and> c \<noteq> ''__proto__''"
  proof (intro allI impI)
    fix p c v
    assume w: "fst (token_write t rest) = SetChild p c v"
    show "c \<noteq> ''length'' \<and> c \<noteq> ''__proto__''"
    proof (rule ccontr)
      assume "\<not> (c \<noteq> ''length'' \<and> c \<noteq> ''__proto__'')"
      then have c: "c = ''length'' \<or> c = ''__proto__''" by blast
      then have "\<forall>x \<in> set c. \<not> (65 \<le> (of_char x :: nat) \<and> (of_char x :: nat) \<le> 90)" by auto
      then have "includes_str t c" using token_child_in_token [OF w] by blast
      with c assms show False by auto
    qed
  qed
next
  show "\<forall>e. fst (token_write t rest) \<noteq> Raise e" by (simp add: token_write_never_raises)
qed

lemma parse_loop_returns:
  "\<forall>t \<in> set args. \<not> includes_str t ''length'' \<and> \<not> includes_str t ''__proto__'' \<Longrightarrow>
     \<exists>st'. parse_loop eng st args = Inr st'"
proof (induction eng st args rule: parse_loop.induct)
  case (1 eng st)
  then show ?case by simp
next
  case (2 eng st arg rest)
  obtain w rest' where tw: "token_write arg rest = (w, rest')" by (cases "token_write arg rest")
  from "2.prems" obtain st1 where p: "perform eng st w = Inr st1"
    using token_write_returns [of arg eng st rest] tw by auto
  have "set rest' \<subseteq> set rest" using token_write_rest_subset [of arg rest] tw by simp
  with "2.prems" have "\<forall>t \<in> set rest'. \<not> includes_str t ''length'' \<and> \<not> includes_str t ''__proto__''"
    by auto
  then obtain st' where "parse_loop eng st1 rest' = Inr st'"
    using "2.IH" [OF tw [symmetric] p] by blast
  with tw p show ?case by simp
qed

subsection \<open>The nested-map invariant\<close>




subsection \<open>The negated flag wins\<close>

text \<open>
  C8. Let \<^verbatim>\<open>--no-splitting\<close> be an argument and let no argument after it be the flag
  \<^verbatim>\<open>--splitting\<close>, alone or continued by \<^verbatim>\<open>=\<close> or by a dot. Whatever comes before, every
  configuration that \<open>parseArgs\<close> returns maps \<^verbatim>\<open>splitting\<close> to \<^verbatim>\<open>false\<close>. The parser
  returns a configuration unless a write raises an exception, and none does when no
  argument contains \<^verbatim>\<open>length\<close> or \<^verbatim>\<open>__proto__\<close>.
\<close>

theorem no_splitting_wins:
  assumes "drop 2 argv = pre @ ''--no-splitting'' # post"
    and "\<forall>t \<in> set post. t \<noteq> ''--splitting'' \<and> \<not> startsWith t ''--splitting='' \<and>
           \<not> startsWith t ''--splitting.''"
  shows "(\<forall>cfg. parseArgs eng argv = Inr cfg \<longrightarrow> cfg ''splitting'' = Some (JBool False)) \<and>
         ((\<forall>t \<in> set (drop 2 argv). \<not> includes_str t ''length'' \<and> \<not> includes_str t ''__proto__'') \<longrightarrow>
            (\<exists>cfg. parseArgs eng argv = Inr cfg \<and> cfg ''splitting'' = Some (JBool False)))"
proof -
  have d: "startsWith ''--no-splitting'' ''--''" by (simp add: startsWith_def)
  have as: "assignments (drop 2 argv) =
          assignments pre @ SetKey ''splitting'' (JBool False) # assignments post"
    using assignments_append [OF d, of pre post] assms(1)
    by (simp add: token_write_no_splitting)
  have first: "cfg ''splitting'' = Some (JBool False)" if r: "parseArgs eng argv = Inr cfg" for cfg
  proof -
    from r obtain st where st: "parse_state eng argv = Inr st" and cfg: "cfg = own st"
      by (auto simp: parseArgs_def split: sum.splits)
    from st as have "perform_all eng initial
        (assignments pre @ SetKey ''splitting'' (JBool False) # assignments post) = Inr st"
      by (simp add: parse_state_def parse_loop_assignments)
    then obtain c1 c2 where c1: "perform_all eng initial (assignments pre) = Inr c1"
      and c2: "perform eng c1 (SetKey ''splitting'' (JBool False)) = Inr c2"
      and c3: "perform_all eng c2 (assignments post) = Inr st"
      by (auto simp: perform_all_append split: sum.splits)
    from c2 have "own c2 ''splitting'' = Some (JBool False)"
      by (auto simp: set_key_def)
    then have "own st ''splitting'' = Some (JBool False)"
      using perform_all_leaves_false [OF _ assignments_leave_splitting [OF assms(2)] c3] by simp
    with cfg show ?thesis by simp
  qed
  have second: "\<exists>cfg. parseArgs eng argv = Inr cfg \<and> cfg ''splitting'' = Some (JBool False)"
    if n: "\<forall>t \<in> set (drop 2 argv). \<not> includes_str t ''length'' \<and> \<not> includes_str t ''__proto__''"
  proof -
    from n obtain st where "parse_loop eng initial (drop 2 argv) = Inr st"
      using parse_loop_returns by blast
    then have "parseArgs eng argv = Inr (own st)"
      by (simp add: parseArgs_def parse_state_def)
    with first show ?thesis by blast
  qed
  from first second show ?thesis by blast
qed

theorem no_splitting_wins_witness:
  "drop 2 [''bun'', ''build.ts'', ''--splitting'', ''--no-splitting'', ''--target'', ''node''] =
     [''--splitting''] @ ''--no-splitting'' # [''--target'', ''node''] \<and>
   ''--target'' \<noteq> ''--splitting'' \<and> \<not> startsWith ''--target'' ''--splitting='' \<and>
   \<not> startsWith ''--target'' ''--splitting.'' \<and>
   ''node'' \<noteq> ''--splitting'' \<and> \<not> startsWith ''node'' ''--splitting='' \<and>
   \<not> startsWith ''node'' ''--splitting.'' \<and>
   parseArgs example_engine
     [''bun'', ''build.ts'', ''--splitting'', ''--no-splitting'', ''--target'', ''node''] =
     Inr [''splitting'' \<mapsto> JBool False, ''target'' \<mapsto> JStr ''node''] \<and>
   [''splitting'' \<mapsto> JBool False, ''target'' \<mapsto> JStr ''node''] ''splitting'' = Some (JBool False) \<and>
   \<not> includes_str ''--splitting'' ''length'' \<and> \<not> includes_str ''--splitting'' ''__proto__'' \<and>
   \<not> includes_str ''--no-splitting'' ''length'' \<and> \<not> includes_str ''--no-splitting'' ''__proto__'' \<and>
   \<not> includes_str ''--target'' ''length'' \<and> \<not> includes_str ''--target'' ''__proto__'' \<and>
   \<not> includes_str ''node'' ''length'' \<and> \<not> includes_str ''node'' ''__proto__'' \<and>
   (\<exists>cfg. parseArgs (\<lparr>to_length = (\<lambda>v. None), array_prototype_has = (\<lambda>s. True)\<rparr>)
       [''bun'', ''build.ts'', ''--splitting'', ''--no-splitting'', ''--target'', ''node''] = Inr cfg \<and>
      cfg ''splitting'' = Some (JBool False)) \<and>
   drop 2 [''bun'', ''build.ts'', ''--no-splitting'', ''--__proto__=x''] =
     [] @ ''--no-splitting'' # [''--__proto__=x''] \<and>
   ''--__proto__=x'' \<noteq> ''--splitting'' \<and> \<not> startsWith ''--__proto__=x'' ''--splitting='' \<and>
   \<not> startsWith ''--__proto__=x'' ''--splitting.'' \<and>
   parseArgs example_engine [''bun'', ''build.ts'', ''--no-splitting'', ''--__proto__=x''] =
     Inr [''splitting'' \<mapsto> JBool False]"
proof -
  let ?argv = "[''bun'', ''build.ts'', ''--splitting'', ''--no-splitting'', ''--target'', ''node'']"
  have a: "drop 2 ?argv = [''--splitting''] @ ''--no-splitting'' # [''--target'', ''node'']"
    by simp
  have b: "\<forall>t \<in> set [''--target'', ''node'']. t \<noteq> ''--splitting'' \<and>
      \<not> startsWith t ''--splitting='' \<and> \<not> startsWith t ''--splitting.''"
    by (simp add: startsWith_def)
  have c: "parseArgs example_engine ?argv =
     Inr [''splitting'' \<mapsto> JBool False, ''target'' \<mapsto> JStr ''node'']"
    by (simp add: parse_eval)
  have b': "''--target'' \<noteq> ''--splitting'' \<and> \<not> startsWith ''--target'' ''--splitting='' \<and>
     \<not> startsWith ''--target'' ''--splitting.'' \<and>
     ''node'' \<noteq> ''--splitting'' \<and> \<not> startsWith ''node'' ''--splitting='' \<and>
     \<not> startsWith ''node'' ''--splitting.''"
    using b by simp
  have v: "[''splitting'' \<mapsto> JBool False, ''target'' \<mapsto> JStr ''node''] ''splitting'' =
      Some (JBool False)"
    using no_splitting_wins [OF a b, of example_engine, THEN conjunct1, rule_format, OF c] .
  have i: "\<not> includes_str ''--splitting'' ''length'' \<and> \<not> includes_str ''--splitting'' ''__proto__'' \<and>
   \<not> includes_str ''--no-splitting'' ''length'' \<and> \<not> includes_str ''--no-splitting'' ''__proto__'' \<and>
   \<not> includes_str ''--target'' ''length'' \<and> \<not> includes_str ''--target'' ''__proto__'' \<and>
   \<not> includes_str ''node'' ''length'' \<and> \<not> includes_str ''node'' ''__proto__''"
    by (simp add: startsWith_def)
  then have i': "\<forall>t \<in> set (drop 2 ?argv). \<not> includes_str t ''length'' \<and>
      \<not> includes_str t ''__proto__''"
    by simp
  have e: "\<exists>cfg. parseArgs (\<lparr>to_length = (\<lambda>v. None), array_prototype_has = (\<lambda>s. True)\<rparr>) ?argv =
      Inr cfg \<and> cfg ''splitting'' = Some (JBool False)"
    using no_splitting_wins [OF a b, THEN conjunct2, THEN mp, OF i'] .
  have a2: "drop 2 [''bun'', ''build.ts'', ''--no-splitting'', ''--__proto__=x''] =
     [] @ ''--no-splitting'' # [''--__proto__=x'']" by simp
  have b2: "\<forall>t \<in> set [''--__proto__=x'']. t \<noteq> ''--splitting'' \<and>
      \<not> startsWith t ''--splitting='' \<and> \<not> startsWith t ''--splitting.''"
    by (simp add: startsWith_def)
  have b2': "''--__proto__=x'' \<noteq> ''--splitting'' \<and> \<not> startsWith ''--__proto__=x'' ''--splitting='' \<and>
     \<not> startsWith ''--__proto__=x'' ''--splitting.''"
    using b2 by simp
  have c2: "parseArgs example_engine [''bun'', ''build.ts'', ''--no-splitting'', ''--__proto__=x''] =
     Inr [''splitting'' \<mapsto> JBool False]"
    by (simp add: parse_eval)
  show ?thesis by (intro conjI b' [THEN conjunct1] a c v i e a2 c2 b2') (use b' i b2' in simp_all)
qed

subsection \<open>The size formatter\<close>

lemma size_loop_3: "size_loop s (Suc (Suc (Suc 0))) = (s, Suc (Suc (Suc 0)))"
  by (subst size_loop.simps) (simp add: units_def)

lemma size_loop_2:
  "size_loop s (Suc (Suc 0)) = (if s \<ge> 1024 then (s / 1024, Suc (Suc (Suc 0))) else (s, Suc (Suc 0)))"
  by (subst size_loop.simps) (simp add: units_def size_loop_3)

lemma size_loop_1:
  "size_loop s (Suc 0) = (if s \<ge> 1024 then size_loop (s / 1024) (Suc (Suc 0)) else (s, Suc 0))"
  by (subst size_loop.simps) (simp add: units_def)

lemma size_loop_0: "size_loop s 0 = (if s \<ge> 1024 then size_loop (s / 1024) (Suc 0) else (s, 0))"
  by (subst size_loop.simps) (simp add: units_def)

lemma floor_rat_numeral: "\<lfloor>(numeral a / numeral b :: rat)\<rfloor> = numeral a div numeral b"
  using floor_divide_of_int_eq [of "numeral a" "numeral b", where ?'a = rat] by simp

lemma digit_char_is_digit: "d < 10 \<Longrightarrow> is_digit (digit_char d)"
  by (simp add: is_digit_def digit_char_def)

lemma decimal_digits: "decimal n \<noteq> [] \<and> list_all is_digit (decimal n)"
proof (induction n rule: decimal.induct)
  case (1 n)
  show ?case
  proof (cases "n < 10")
    case True
    then show ?thesis by (subst decimal.simps, subst decimal.simps) (simp add: digit_char_is_digit)
  next
    case False
    with 1 show ?thesis
      by (subst decimal.simps, subst (2) decimal.simps) (simp add: digit_char_is_digit)
  qed
qed

lemma decimal_length_2: "m < 100 \<Longrightarrow> length (decimal m) \<le> 2"
proof -
  assume "m < 100"
  then have "m div 10 < 10" by presburger
  then show ?thesis by (subst decimal.simps, subst decimal.simps) simp
qed

lemma div_pow_ge: "1024 ^ Suc j \<le> bytes \<Longrightarrow> 1024 \<le> (of_nat bytes :: rat) / 1024 ^ j"
proof -
  assume "1024 ^ Suc j \<le> bytes"
  then have "(of_nat (1024 ^ Suc j) :: rat) \<le> of_nat bytes" by (rule of_nat_mono)
  then show ?thesis by (simp add: le_divide_eq)
qed

lemma div_pow_lt: "bytes < 1024 ^ Suc j \<Longrightarrow> (of_nat bytes :: rat) / 1024 ^ j < 1024"
proof -
  assume "bytes < 1024 ^ Suc j"
  then have "(of_nat bytes :: rat) < of_nat (1024 ^ Suc j)" by (simp only: of_nat_less_iff)
  then show ?thesis by (simp add: divide_less_eq)
qed

lemma digits_foldl:
  "foldl (\<lambda>n c. 10 * n + ((of_char c :: nat) - 48)) a ys =
     a * 10 ^ length ys + foldl (\<lambda>n c. 10 * n + ((of_char c :: nat) - 48)) 0 ys"
proof (induction ys arbitrary: a)
  case Nil
  then show ?case by simp
next
  case (Cons c r)
  show ?case
    using Cons.IH [of "10 * a + ((of_char c :: nat) - 48)"] Cons.IH [of "(of_char c :: nat) - 48"]
    by (simp add: algebra_simps)
qed

lemma digits_value_append:
  "digits_value (xs @ ys) = digits_value xs * 10 ^ length ys + digits_value ys"
  using digits_foldl [of "digits_value xs" ys] by (simp add: digits_value_def)

lemma digits_value_digit: "d < 10 \<Longrightarrow> digits_value [digit_char d] = d"
  by (simp add: digits_value_def digit_char_def)

lemma digits_value_decimal: "digits_value (decimal n) = n"
proof (induction n rule: decimal.induct)
  case (1 n)
  show ?case
  proof (cases "n < 10")
    case True
    then show ?thesis by (subst decimal.simps) (simp add: digits_value_digit)
  next
    case False
    with 1 have "digits_value (decimal (n div 10)) = n div 10" by simp
    with False show ?thesis
      by (subst decimal.simps) (simp add: digits_value_append digits_value_digit)
  qed
qed

lemma digits_value_zeros: "digits_value (replicate k CHR ''0'' @ xs) = digits_value xs"
  by (induction k) (simp_all add: digits_value_def)

lemma digit_char_zero: "digit_char d = CHR ''0'' \<Longrightarrow> d < 10 \<Longrightarrow> d = 0"
proof -
  assume a: "digit_char d = CHR ''0''" and b: "d < 10"
  have "d = digits_value [digit_char d]" using b by (simp add: digits_value_digit)
  also have "\<dots> = digits_value ''0''" using a by simp
  also have "\<dots> = 0" by (simp add: digits_value_def)
  finally show ?thesis .
qed

lemma decimal_canonical: "decimal n = ''0'' \<or> hd (decimal n) \<noteq> CHR ''0''"
proof (induction n rule: decimal.induct)
  case (1 n)
  show ?case
  proof (cases "n < 10")
    case True
    show ?thesis
    proof (cases "n = 0")
      case True
      then show ?thesis by (subst decimal.simps) (simp add: digit_char_def char_of_def bit_0)
    next
      case False
      with True have "digit_char n \<noteq> CHR ''0''" using digit_char_zero by blast
      with True show ?thesis by (subst (2) decimal.simps) simp
    qed
  next
    case False
    have ne: "decimal (n div 10) \<noteq> []" using decimal_digits by blast
    have "decimal (n div 10) \<noteq> ''0''"
    proof
      assume "decimal (n div 10) = ''0''"
      then have "n div 10 = digits_value ''0''"
        using digits_value_decimal [of "n div 10"] by simp
      also have "\<dots> = 0" by (simp add: digits_value_def)
      finally show False using False by simp
    qed
    with 1 False have "hd (decimal (n div 10)) \<noteq> CHR ''0''" by simp
    with False ne show ?thesis by (subst (2) decimal.simps) simp
  qed
qed

lemma toFixed_2_reads:
  assumes "0 \<le> x"
  shows "\<exists>ip d1 d2.
     toFixed x 2 = ip @ ''.'' @ [d1, d2] \<and> all_digits ip \<and> (ip = ''0'' \<or> hd ip \<noteq> CHR ''0'') \<and>
     is_digit d1 \<and> is_digit d2 \<and>
     of_nat (digits_value (ip @ [d1, d2])) / 100 - 1 / 200 \<le> x \<and>
     x < of_nat (digits_value (ip @ [d1, d2])) / 100 + 1 / 200"
proof -
  define n where "n = nat \<lfloor>x * 10 ^ 2 + 1 / 2\<rfloor>"
  define frac where "frac = decimal (n mod 10 ^ 2)"
  define fr where "fr = replicate (2 - length frac) CHR ''0'' @ frac"
  have l: "length frac \<le> 2" unfolding frac_def by (rule decimal_length_2) simp
  have z: "is_digit CHR ''0''" by (simp add: is_digit_def)
  have t: "toFixed x 2 = decimal (n div 10 ^ 2) @ ''.'' @ fr"
    by (simp add: toFixed_def n_def frac_def fr_def Let_def)
  have len: "length fr = 2" using l by (simp add: fr_def)
  then obtain d1 d2 where fr: "fr = [d1, d2]"
    by (cases fr rule: list.exhaust [case_product list.exhaust]) (auto simp: length_Suc_conv)
  have dig: "list_all is_digit fr"
    using decimal_digits [of "n mod 10 ^ 2"] z by (auto simp: fr_def frac_def list_all_iff)
  have val: "digits_value fr = n mod 10 ^ 2"
    by (simp add: fr_def frac_def digits_value_zeros digits_value_decimal)
  have "digits_value (decimal (n div 10 ^ 2) @ fr) = n div 10 ^ 2 * 10 ^ 2 + n mod 10 ^ 2"
    by (simp add: digits_value_append digits_value_decimal val len)
  then have v: "digits_value (decimal (n div 10 ^ 2) @ [d1, d2]) = n" using fr by simp
  have pos: "0 \<le> \<lfloor>x * 10 ^ 2 + 1 / 2\<rfloor>" using assms by simp
  then have "(of_nat n :: rat) = of_int \<lfloor>x * 10 ^ 2 + 1 / 2\<rfloor>" by (simp add: n_def)
  then have "(of_nat n :: rat) \<le> x * 100 + 1 / 2" and "x * 100 + 1 / 2 < of_nat n + 1"
    by simp_all linarith
  then have b: "of_nat n / 100 - 1 / 200 \<le> x" "x < of_nat n / 100 + 1 / 200"
    by (simp_all add: field_simps)
  show ?thesis
    using t fr dig v b decimal_digits [of "n div 10 ^ 2"] decimal_canonical [of "n div 10 ^ 2"]
    by (intro exI [of _ "decimal (n div 10 ^ 2)"] exI [of _ d1] exI [of _ d2])
       (simp add: all_digits_def)
qed

lemma formatFileSize_at:
  assumes "size_loop (of_nat bytes) 0 = (x, k)" and "0 \<le> x"
  shows "\<exists>ip d1 d2.
     formatFileSize bytes = ip @ ''.'' @ [d1, d2] @ '' '' @ units ! k \<and>
     all_digits ip \<and> (ip = ''0'' \<or> hd ip \<noteq> CHR ''0'') \<and> is_digit d1 \<and> is_digit d2 \<and>
     of_nat (digits_value (ip @ [d1, d2])) / 100 - 1 / 200 \<le> x \<and>
     x < of_nat (digits_value (ip @ [d1, d2])) / 100 + 1 / 200"
proof -
  from toFixed_2_reads [OF assms(2)] obtain ip d1 d2 where
    t: "toFixed x 2 = ip @ ''.'' @ [d1, d2]" and
    r: "all_digits ip" "ip = ''0'' \<or> hd ip \<noteq> CHR ''0''" "is_digit d1" "is_digit d2"
       "of_nat (digits_value (ip @ [d1, d2])) / 100 - 1 / 200 \<le> x"
       "x < of_nat (digits_value (ip @ [d1, d2])) / 100 + 1 / 200"
    by blast
  have "formatFileSize bytes = ip @ ''.'' @ [d1, d2] @ '' '' @ units ! k"
    using assms(1) t by (simp add: formatFileSize_def)
  with r show ?thesis by blast
qed

text \<open>
  C9. For a byte count below \<open>2 ^ 53\<close>, \<open>formatFileSize\<close> divides by 1024 as long as
  the value is at least 1024, at most three times: with \<open>k\<close> the number of divisions,
  every value before a division was at least 1024 and, unless \<open>k = 3\<close>, the last value
  \<open>x\<close> is below 1024; from \<open>1024 ^ 3\<close> bytes on, \<open>k = 3\<close>. The result is a decimal
  numeral with exactly two digits after the point, a space and the \<open>k\<close>-th of the units
  \<^verbatim>\<open>B\<close>, \<^verbatim>\<open>KB\<close>, \<^verbatim>\<open>MB\<close>, \<^verbatim>\<open>GB\<close>. The numeral has no superfluous leading zero and
  is \<open>x\<close> rounded to hundredths, halves upwards.
\<close>

theorem formatFileSize_units:
  assumes "bytes < 2 ^ 53"
  shows "\<exists>k ip d1 d2.
           k \<le> 3 \<and> (\<forall>j<k. 1024 \<le> (of_nat bytes :: rat) / 1024 ^ j) \<and>
           (k < 3 \<longrightarrow> (of_nat bytes :: rat) / 1024 ^ k < 1024) \<and>
           (1024 ^ 3 \<le> bytes \<longrightarrow> k = 3) \<and>
           formatFileSize bytes =
             ip @ ''.'' @ [d1, d2] @ '' '' @ [''B'', ''KB'', ''MB'', ''GB''] ! k \<and>
           all_digits ip \<and> (ip = ''0'' \<or> hd ip \<noteq> CHR ''0'') \<and> is_digit d1 \<and> is_digit d2 \<and>
           of_nat (digits_value (ip @ [d1, d2])) / 100 - 1 / 200 \<le> (of_nat bytes :: rat) / 1024 ^ k \<and>
           (of_nat bytes :: rat) / 1024 ^ k < of_nat (digits_value (ip @ [d1, d2])) / 100 + 1 / 200"
proof -
  let ?b = "of_nat bytes :: rat"
  have pos: "0 \<le> ?b / 1024 ^ k" for k by simp
  consider (B) "bytes < 1024" | (KB) "1024 \<le> bytes" "bytes < 1024 ^ 2"
    | (MB) "1024 ^ 2 \<le> bytes" "bytes < 1024 ^ 3" | (GB) "1024 ^ 3 \<le> bytes"
    by linarith
  then show ?thesis
  proof cases
    case B
    then have lt: "?b / 1024 ^ 0 < 1024" using div_pow_lt [of bytes 0] by simp
    then have "size_loop ?b 0 = (?b / 1024 ^ 0, 0)" by (simp add: size_loop_0)
    from formatFileSize_at [OF this pos] obtain ip d1 d2 where
      "formatFileSize bytes = ip @ ''.'' @ [d1, d2] @ '' '' @ units ! 0 \<and>
       all_digits ip \<and> (ip = ''0'' \<or> hd ip \<noteq> CHR ''0'') \<and> is_digit d1 \<and> is_digit d2 \<and>
       of_nat (digits_value (ip @ [d1, d2])) / 100 - 1 / 200 \<le> ?b / 1024 ^ 0 \<and>
       ?b / 1024 ^ 0 < of_nat (digits_value (ip @ [d1, d2])) / 100 + 1 / 200"
      by blast
    with lt B show ?thesis
      by (intro exI [of _ 0] exI [of _ ip] exI [of _ d1] exI [of _ d2]) (simp add: units_def)
  next
    case KB
    have ge: "1024 \<le> ?b / 1024 ^ 0" using KB div_pow_ge [of 0 bytes] by simp
    have lt: "?b / 1024 ^ 1 < 1024" using KB div_pow_lt [of bytes 1] by (simp add: power2_eq_square)
    have "size_loop ?b 0 = (?b / 1024 ^ 1, 1)"
      using ge lt by (simp add: size_loop_0 size_loop_1)
    from formatFileSize_at [OF this pos] obtain ip d1 d2 where
      "formatFileSize bytes = ip @ ''.'' @ [d1, d2] @ '' '' @ units ! 1 \<and>
       all_digits ip \<and> (ip = ''0'' \<or> hd ip \<noteq> CHR ''0'') \<and> is_digit d1 \<and> is_digit d2 \<and>
       of_nat (digits_value (ip @ [d1, d2])) / 100 - 1 / 200 \<le> ?b / 1024 ^ 1 \<and>
       ?b / 1024 ^ 1 < of_nat (digits_value (ip @ [d1, d2])) / 100 + 1 / 200"
      by blast
    with ge lt KB show ?thesis
      by (intro exI [of _ 1] exI [of _ ip] exI [of _ d1] exI [of _ d2]) (simp add: units_def)
  next
    case MB
    have ge0: "1024 \<le> ?b / 1024 ^ 0" using MB div_pow_ge [of 0 bytes] by simp
    have ge1: "1024 \<le> ?b / 1024 ^ 1" using MB div_pow_ge [of 1 bytes] by (simp add: power2_eq_square)
    have lt: "?b / 1024 ^ 2 < 1024"
      using MB div_pow_lt [of bytes 2] by (simp add: power3_eq_cube power2_eq_square)
    have "size_loop ?b 0 = (?b / 1024 ^ 2, 2)"
      using ge0 ge1 lt
      by (simp add: size_loop_0 size_loop_1 size_loop_2 power2_eq_square numeral_2_eq_2)
    from formatFileSize_at [OF this pos] obtain ip d1 d2 where f:
      "formatFileSize bytes = ip @ ''.'' @ [d1, d2] @ '' '' @ units ! 2 \<and>
       all_digits ip \<and> (ip = ''0'' \<or> hd ip \<noteq> CHR ''0'') \<and> is_digit d1 \<and> is_digit d2 \<and>
       of_nat (digits_value (ip @ [d1, d2])) / 100 - 1 / 200 \<le> ?b / 1024 ^ 2 \<and>
       ?b / 1024 ^ 2 < of_nat (digits_value (ip @ [d1, d2])) / 100 + 1 / 200"
      by blast
    have "\<forall>j<2. 1024 \<le> ?b / 1024 ^ j"
      using ge0 ge1 by (simp add: numeral_2_eq_2 less_Suc_eq)
    with f lt MB show ?thesis
      by (intro exI [of _ 2] exI [of _ ip] exI [of _ d1] exI [of _ d2]) (simp add: units_def)
  next
    case GB
    have ge0: "1024 \<le> ?b / 1024 ^ 0" using GB div_pow_ge [of 0 bytes] by simp
    have ge1: "1024 \<le> ?b / 1024 ^ 1" using GB div_pow_ge [of 1 bytes] by (simp add: power2_eq_square)
    have ge2: "1024 \<le> ?b / 1024 ^ 2"
      using GB div_pow_ge [of 2 bytes] by (simp add: power3_eq_cube power2_eq_square)
    have "size_loop ?b 0 = (?b / 1024 ^ 3, 3)"
      using ge0 ge1 ge2
      by (simp add: size_loop_0 size_loop_1 size_loop_2 power2_eq_square power3_eq_cube
          numeral_3_eq_3)
    from formatFileSize_at [OF this pos] obtain ip d1 d2 where f:
      "formatFileSize bytes = ip @ ''.'' @ [d1, d2] @ '' '' @ units ! 3 \<and>
       all_digits ip \<and> (ip = ''0'' \<or> hd ip \<noteq> CHR ''0'') \<and> is_digit d1 \<and> is_digit d2 \<and>
       of_nat (digits_value (ip @ [d1, d2])) / 100 - 1 / 200 \<le> ?b / 1024 ^ 3 \<and>
       ?b / 1024 ^ 3 < of_nat (digits_value (ip @ [d1, d2])) / 100 + 1 / 200"
      by blast
    have "\<forall>j<3. 1024 \<le> ?b / 1024 ^ j"
      using ge0 ge1 ge2 by (simp add: numeral_3_eq_3 less_Suc_eq)
    with f show ?thesis
      by (intro exI [of _ 3] exI [of _ ip] exI [of _ d1] exI [of _ d2]) (simp add: units_def)
  qed
qed

lemma formatFileSize_1536: "formatFileSize 1536 = ''1.50 KB''"
  by (simp add: formatFileSize_def size_loop_0 size_loop_1 toFixed_def Let_def units_def
      floor_rat_numeral decimal.simps digit_char_def char_of_def bit_0)

theorem formatFileSize_units_witness:
  "(1536::nat) < 2 ^ 53 \<and> formatFileSize 1536 = ''1.50 KB'' \<and>
   formatFileSize 0 = ''0.00 B'' \<and> formatFileSize 1023 = ''1023.00 B'' \<and>
   formatFileSize 1048576 = ''1.00 MB'' \<and> formatFileSize 5368709120 = ''5.00 GB'' \<and>
   (\<exists>k ip d1 d2.
           k \<le> 3 \<and> (\<forall>j<k. 1024 \<le> (of_nat (1536::nat) :: rat) / 1024 ^ j) \<and>
           (k < 3 \<longrightarrow> (of_nat (1536::nat) :: rat) / 1024 ^ k < 1024) \<and>
           (1024 ^ 3 \<le> (1536::nat) \<longrightarrow> k = 3) \<and>
           formatFileSize 1536 =
             ip @ ''.'' @ [d1, d2] @ '' '' @ [''B'', ''KB'', ''MB'', ''GB''] ! k \<and>
           all_digits ip \<and> (ip = ''0'' \<or> hd ip \<noteq> CHR ''0'') \<and> is_digit d1 \<and> is_digit d2 \<and>
           of_nat (digits_value (ip @ [d1, d2])) / 100 - 1 / 200
             \<le> (of_nat (1536::nat) :: rat) / 1024 ^ k \<and>
           (of_nat (1536::nat) :: rat) / 1024 ^ k
             < of_nat (digits_value (ip @ [d1, d2])) / 100 + 1 / 200)"
proof -
  have h: "(1536::nat) < 2 ^ 53" by simp
  have e0: "formatFileSize 0 = ''0.00 B''"
    by (simp add: formatFileSize_def size_loop_0 size_loop_1 toFixed_def Let_def units_def
      floor_rat_numeral decimal.simps digit_char_def char_of_def bit_0)
  have e1: "formatFileSize 1023 = ''1023.00 B''"
    by (simp add: formatFileSize_def size_loop_0 size_loop_1 toFixed_def Let_def units_def
      floor_rat_numeral decimal.simps digit_char_def char_of_def bit_0)
  have e2: "formatFileSize 1048576 = ''1.00 MB''"
    by (simp add: formatFileSize_def size_loop_0 size_loop_1 size_loop_2 toFixed_def Let_def
      units_def floor_rat_numeral decimal.simps digit_char_def char_of_def bit_0)
  have e3: "formatFileSize 5368709120 = ''5.00 GB''"
    by (simp add: formatFileSize_def size_loop_0 size_loop_1 size_loop_2 size_loop_3 toFixed_def
      Let_def units_def floor_rat_numeral decimal.simps digit_char_def char_of_def bit_0)
  show ?thesis
    by (intro conjI h formatFileSize_1536 e0 e1 e2 e3 formatFileSize_units [OF h])
qed

subsection \<open>The pipeline\<close>

lemma argv_build:
  "parse_state example_engine [''bun'', ''build.ts'', ''--outdir=build''] =
     Inr (initial\<lparr>own := [''outdir'' \<mapsto> JStr ''build'']\<rparr>)"
  by (simp add: parse_eval)

lemma example_env_answers:
  "js example_env = example_engine"
  "cwd example_env = ''/app''"
  "path_join example_env a b = a @ ''/'' @ b"
  "path_resolve example_env a b = ''/app/'' @ a @ ''/'' @ b"
  "fs_exists example_env d = Inr False"
  "fs_remove example_env d = None"
  "glob_scan example_env = Inr [''index.html'', ''admin.html'']"
  "bun_build example_env request = Inl (Thrown ''bundle failed'')"
  by (simp_all add: example_env_def)

lemma locked_env_answers:
  "js locked_env = example_engine"
  "fs_exists locked_env d = Inr True"
  "fs_remove locked_env d = Some (PlatformError ''EACCES'')"
  by (simp_all add: locked_env_def example_env_def)

lemma building_env_answers:
  "js building_env = example_engine"
  "cwd building_env = ''/app''"
  "path_join building_env a b = a @ ''/'' @ b"
  "path_resolve building_env a b = ''/app/'' @ a @ ''/'' @ b"
  "path_relative building_env a b = drop (length a + 1) b"
  "fs_exists building_env d = Inr False"
  "glob_scan building_env = Inr [''index.html'', ''admin.html'']"
  "bun_build building_env request =
     Inr \<lparr>outputs = [\<lparr>artifact_path = ''/app/dist/index.html'',
                        artifact_kind = ''entry-point'',
                        artifact_size = 1536\<rparr>]\<rparr>"
  by (simp_all add: building_env_def example_env_def)

lemma discover_example:
  "discover example_env [''index.html'', ''admin.html''] =
     [''/app/src/index.html'', ''/app/src/admin.html'']"
  by (simp add: discover_def example_env_answers startsWith_def)

lemma discover_building:
  "discover building_env [''index.html'', ''admin.html''] =
     [''/app/src/index.html'', ''/app/src/admin.html'']"
  by (simp add: discover_def building_env_answers startsWith_def)

lemma outdir_of_own_string:
  "own st ''outdir'' = Some (JStr s) \<Longrightarrow> outdir_of env st = s"
  by (simp add: outdir_of_def lookup_def)

lemma outdir_of_initial: "outdir_of env initial = path_join env (cwd env) ''dist''"
  by (simp add: outdir_of_def lookup_def inherited_def initial_def)

text \<open>
  A run that succeeds: no directory to clean, two entrypoints, the request with the three
  flags over the defaults, and a table of one row.
\<close>

lemma pipeline_success:
  "buildProgram building_env
     [''bun'', ''build.ts'', ''--outdir=build'', ''--no-minify'', ''--sourcemap=none''] =
     ([Log_starting, Fs_exists ''build'', Glob_scan, Log_found 2,
       Bun_build (build_request [''/app/src/index.html'', ''/app/src/admin.html''] ''build''
          [''outdir'' \<mapsto> JStr ''build'', ''minify'' \<mapsto> JBool False,
           ''sourcemap'' \<mapsto> JStr ''none'']),
       Log_build_output,
       Console_table [\<lparr>row_File = ''dist/index.html'', row_Type = ''entry-point'',
                       row_Size = ''1.50 KB''\<rparr>],
       Log_completed],
      Inr \<lparr>outputs = [\<lparr>artifact_path = ''/app/dist/index.html'',
                           artifact_kind = ''entry-point'',
                           artifact_size = 1536\<rparr>]\<rparr>)"
proof -
  have p: "parse_state example_engine
      [''bun'', ''build.ts'', ''--outdir=build'', ''--no-minify'', ''--sourcemap=none''] =
    Inr (initial\<lparr>own := [''outdir'' \<mapsto> JStr ''build'', ''minify'' \<mapsto> JBool False,
                         ''sourcemap'' \<mapsto> JStr ''none'']\<rparr>)"
    by (simp add: parse_eval)
  have t: "outputTable building_env
      \<lparr>outputs = [\<lparr>artifact_path = ''/app/dist/index.html'',
                         artifact_kind = ''entry-point'',
                         artifact_size = 1536\<rparr>]\<rparr> =
      [\<lparr>row_File = ''dist/index.html'', row_Type = ''entry-point'', row_Size = ''1.50 KB''\<rparr>]"
    by (simp add: outputTable_def building_env_answers formatFileSize_1536)
  show ?thesis
    by (simp add: buildProgram_def p outdir_of_own_string clean_def Let_def building_env_answers
        discover_building t)
qed

lemma clean_not_exists:
  "fs_exists env d = Inr False \<Longrightarrow> clean env d = ([Fs_exists d], Inr ())"
  by (simp add: clean_def)

lemma clean_remove_fails:
  "fs_exists env d = Inr True \<Longrightarrow> fs_remove env d = Some e \<Longrightarrow>
     clean env d = ([Fs_exists d, Log_cleaning d, Fs_remove d],
       Inl (CleanError (''Failed to clean directory: '' @ d)
              \<lparr>clean_directory = d, clean_originalError = e\<rparr>))"
  by (simp add: clean_def)

lemma clean_events:
  "clean env d = (cleaning, r) \<Longrightarrow> set cleaning \<subseteq> {Fs_exists d, Log_cleaning d, Fs_remove d}"
  by (auto simp: clean_def split: sum.splits bool.splits option.splits)

lemma buildProgram_clean_fails:
  "parse_state (js env) argv = Inr st \<Longrightarrow> clean env (outdir_of env st) = (cleaning, Inl f) \<Longrightarrow>
     buildProgram env argv = (Log_starting # cleaning, Inl f)"
  by (simp add: buildProgram_def)

lemma buildProgram_clean_ok:
  "parse_state (js env) argv = Inr st \<Longrightarrow> clean env (outdir_of env st) = (cleaning, Inr u) \<Longrightarrow>
     \<exists>more. fst (buildProgram env argv) = Log_starting # cleaning @ Glob_scan # more \<and>
       (\<forall>m c. snd (buildProgram env argv) \<noteq> Inl (CleanError m c))"
  by (auto simp: buildProgram_def Let_def split: sum.splits)

lemma buildProgram_reaches_build:
  assumes "parse_state (js env) argv = Inr st"
    and "clean env (outdir_of env st) = (cleaning, Inr ())"
    and "glob_scan env = Inr files"
  shows "buildProgram env argv =
     (let entrypoints = discover env files;
          request = build_request entrypoints (outdir_of env st) (own st);
          before = Log_starting # cleaning @
                     [Glob_scan, Log_found (length entrypoints), Bun_build request]
      in case bun_build env request of
           Inl t \<Rightarrow>
             (before,
              Inl (BuildError ''Build failed''
                     \<lparr>build_originalError = t, build_entrypoints = entrypoints,
                      build_outdir = outdir_of env st, build_config = own st\<rparr>))
         | Inr result \<Rightarrow>
             (before @ [Log_build_output, Console_table (outputTable env result), Log_completed],
              Inr result))"
  using assms by (simp add: buildProgram_def Let_def)

text \<open>
  C5. In a run that reaches the build call, \<^verbatim>\<open>Bun.build\<close> is called exactly once, and the run
  ends as that call does. The request of the call is the defaults with the own
  properties of the parsed configuration spread over them: a key of the configuration
  has the value the configuration gives it, whole, and every other key has the default.
  The defaults are the entrypoints, the output directory, the plugin chain,
  \<^verbatim>\<open>minify: true\<close>, \<^verbatim>\<open>target: "browser"\<close>, \<^verbatim>\<open>sourcemap: "linked"\<close> and the production
  \<^verbatim>\<open>define\<close>.
\<close>

theorem build_request_shallow_override:
  assumes "parse_state (js env) argv = Inr st"
    and "clean env (outdir_of env st) = (cleaning, Inr ())"
    and "glob_scan env = Inr files"
  shows "\<exists>request.
     (\<forall>r. (Bun_build r \<in> set (fst (buildProgram env argv))) = (r = request)) \<and>
     snd (buildProgram env argv) =
       (case bun_build env request of
          Inl t \<Rightarrow>
            Inl (BuildError ''Build failed''
                   \<lparr>build_originalError = t, build_entrypoints = discover env files,
                    build_outdir = outdir_of env st, build_config = own st\<rparr>)
        | Inr result \<Rightarrow> Inr result) \<and>
     (\<forall>k. request k =
        (case own st k of
           Some v \<Rightarrow> Some v
         | None \<Rightarrow>
             [''entrypoints'' \<mapsto> JArr (map (\<lambda>s. Some (JStr s)) (discover env files)) Map.empty,
              ''outdir'' \<mapsto> JStr (outdir_of env st),
              ''plugins'' \<mapsto> JArr [Some JPlugin] Map.empty,
              ''minify'' \<mapsto> JBool True,
              ''target'' \<mapsto> JStr ''browser'',
              ''sourcemap'' \<mapsto> JStr ''linked'',
              ''define'' \<mapsto>
                JObj [''process.env.NODE_ENV'' \<mapsto>
                        JStr (CHR 0x22 # ''production'' @ [CHR 0x22])]] k)) \<and>
     (\<exists>before after.
        fst (buildProgram env argv) = before @ Bun_build request # after \<and>
        (\<forall>r. Bun_build r \<notin> set before \<and> Bun_build r \<notin> set after))"
proof -
  let ?request = "build_request (discover env files) (outdir_of env st) (own st)"
  note b = buildProgram_reaches_build [OF assms]
  have c: "\<forall>r. Bun_build r \<notin> set cleaning" using clean_events [OF assms(2)] by auto
  have ev: "\<forall>r. (Bun_build r \<in> set (fst (buildProgram env argv))) = (r = ?request)"
    using c by (auto simp: b Let_def split: sum.splits)
  have res: "snd (buildProgram env argv) =
       (case bun_build env ?request of
          Inl t \<Rightarrow>
            Inl (BuildError ''Build failed''
                   \<lparr>build_originalError = t, build_entrypoints = discover env files,
                    build_outdir = outdir_of env st, build_config = own st\<rparr>)
        | Inr result \<Rightarrow> Inr result)"
    by (simp add: b Let_def split: sum.splits)
  have keys: "\<forall>k. ?request k =
        (case own st k of
           Some v \<Rightarrow> Some v
         | None \<Rightarrow>
             [''entrypoints'' \<mapsto> JArr (map (\<lambda>s. Some (JStr s)) (discover env files)) Map.empty,
              ''outdir'' \<mapsto> JStr (outdir_of env st),
              ''plugins'' \<mapsto> JArr [Some JPlugin] Map.empty,
              ''minify'' \<mapsto> JBool True,
              ''target'' \<mapsto> JStr ''browser'',
              ''sourcemap'' \<mapsto> JStr ''linked'',
              ''define'' \<mapsto>
                JObj [''process.env.NODE_ENV'' \<mapsto>
                        JStr (CHR 0x22 # ''production'' @ [CHR 0x22])]] k)"
    by (simp add: build_request_def build_defaults_def string_array_def map_add_def
        split: option.splits)
  have once: "\<exists>before after.
        fst (buildProgram env argv) = before @ Bun_build ?request # after \<and>
        (\<forall>r. Bun_build r \<notin> set before \<and> Bun_build r \<notin> set after)"
  proof (cases "bun_build env ?request")
    case (Inl t)
    then have "fst (buildProgram env argv) =
        (Log_starting # cleaning @ [Glob_scan, Log_found (length (discover env files))]) @
        Bun_build ?request # []"
      by (simp add: b Let_def)
    moreover have "\<forall>r. Bun_build r \<notin>
        set (Log_starting # cleaning @ [Glob_scan, Log_found (length (discover env files))]) \<and>
        Bun_build r \<notin> set []"
      using c by simp
    ultimately show ?thesis by blast
  next
    case (Inr result)
    then have "fst (buildProgram env argv) =
        (Log_starting # cleaning @ [Glob_scan, Log_found (length (discover env files))]) @
        Bun_build ?request #
        [Log_build_output, Console_table (outputTable env result), Log_completed]"
      by (simp add: b Let_def)
    moreover have "\<forall>r. Bun_build r \<notin>
        set (Log_starting # cleaning @ [Glob_scan, Log_found (length (discover env files))]) \<and>
        Bun_build r \<notin>
        set [Log_build_output, Console_table (outputTable env result), Log_completed]"
      using c by simp
    ultimately show ?thesis by blast
  qed
  show ?thesis
    by (rule exI [of _ ?request]) (intro conjI ev res keys once)
qed

theorem build_request_shallow_override_witness:
  "parse_state (js example_env) [''bun'', ''build.ts'', ''--target=node''] =
     Inr (initial\<lparr>own := [''target'' \<mapsto> JStr ''node'']\<rparr>) \<and>
   clean example_env (outdir_of example_env (initial\<lparr>own := [''target'' \<mapsto> JStr ''node'']\<rparr>)) =
     ([Fs_exists ''/app/dist''], Inr ()) \<and>
   glob_scan example_env = Inr [''index.html'', ''admin.html''] \<and>
   (\<exists>request.
      Bun_build request \<in> set (fst (buildProgram example_env [''bun'', ''build.ts'', ''--target=node''])) \<and>
      request ''minify'' = Some (JBool True) \<and>
      request ''target'' = Some (JStr ''node'') \<and>
      request ''sourcemap'' = Some (JStr ''linked'') \<and>
      request ''outdir'' = Some (JStr ''/app/dist'')) \<and>
   parse_state (js example_env) [''bun'', ''build.ts'', ''--define.VERSION=1''] =
     Inr (initial\<lparr>own := [''define'' \<mapsto> JObj [''VERSION'' \<mapsto> JNum 1]]\<rparr>) \<and>
   (\<exists>request.
      Bun_build request \<in>
        set (fst (buildProgram example_env [''bun'', ''build.ts'', ''--define.VERSION=1''])) \<and>
      request ''define'' = Some (JObj [''VERSION'' \<mapsto> JNum 1]) \<and>
      request ''minify'' = Some (JBool True))"
proof -
  let ?st = "initial\<lparr>own := [''target'' \<mapsto> JStr ''node'']\<rparr>"
  let ?st2 = "initial\<lparr>own := [''define'' \<mapsto> JObj [''VERSION'' \<mapsto> JNum 1]]\<rparr>"
  have p: "parse_state (js example_env) [''bun'', ''build.ts'', ''--target=node''] = Inr ?st"
    by (simp add: example_env_answers parse_eval)
  have o: "outdir_of example_env ?st = ''/app/dist''"
    by (simp add: outdir_of_def lookup_def inherited_def initial_def example_env_answers)
  have c: "clean example_env (outdir_of example_env ?st) = ([Fs_exists ''/app/dist''], Inr ())"
    by (simp add: o clean_def example_env_answers)
  have g: "glob_scan example_env = Inr [''index.html'', ''admin.html'']"
    by (simp add: example_env_answers)
  from build_request_shallow_override [OF p c g] obtain request where
    r: "\<forall>r. (Bun_build r \<in> set (fst (buildProgram example_env [''bun'', ''build.ts'', ''--target=node'']))) =
          (r = request)"
    and k: "\<forall>k. request k =
        (case own ?st k of
           Some v \<Rightarrow> Some v
         | None \<Rightarrow>
             [''entrypoints'' \<mapsto> JArr (map (\<lambda>s. Some (JStr s))
                 (discover example_env [''index.html'', ''admin.html''])) Map.empty,
              ''outdir'' \<mapsto> JStr (outdir_of example_env ?st),
              ''plugins'' \<mapsto> JArr [Some JPlugin] Map.empty,
              ''minify'' \<mapsto> JBool True,
              ''target'' \<mapsto> JStr ''browser'',
              ''sourcemap'' \<mapsto> JStr ''linked'',
              ''define'' \<mapsto>
                JObj [''process.env.NODE_ENV'' \<mapsto>
                        JStr (CHR 0x22 # ''production'' @ [CHR 0x22])]] k)"
    by blast
  have first: "\<exists>request.
      Bun_build request \<in> set (fst (buildProgram example_env [''bun'', ''build.ts'', ''--target=node''])) \<and>
      request ''minify'' = Some (JBool True) \<and>
      request ''target'' = Some (JStr ''node'') \<and>
      request ''sourcemap'' = Some (JStr ''linked'') \<and>
      request ''outdir'' = Some (JStr ''/app/dist'')"
  proof (intro exI [of _ request] conjI)
    show "Bun_build request \<in> set (fst (buildProgram example_env [''bun'', ''build.ts'', ''--target=node'']))"
      using r by simp
    show "request ''minify'' = Some (JBool True)" using k [rule_format, of "''minify''"] by simp
    show "request ''target'' = Some (JStr ''node'')" using k [rule_format, of "''target''"] by simp
    show "request ''sourcemap'' = Some (JStr ''linked'')"
      using k [rule_format, of "''sourcemap''"] by simp
    show "request ''outdir'' = Some (JStr ''/app/dist'')"
      using k [rule_format, of "''outdir''"] by (simp add: o)
  qed
  have p2: "parse_state (js example_env) [''bun'', ''build.ts'', ''--define.VERSION=1''] = Inr ?st2"
    by (simp add: example_env_answers parse_eval)
  have o2: "outdir_of example_env ?st2 = ''/app/dist''"
    by (simp add: outdir_of_def lookup_def inherited_def initial_def example_env_answers)
  have c2: "clean example_env (outdir_of example_env ?st2) = ([Fs_exists ''/app/dist''], Inr ())"
    by (simp add: o2 clean_def example_env_answers)
  from build_request_shallow_override [OF p2 c2 g] obtain request2 where
    r2: "\<forall>r. (Bun_build r \<in>
          set (fst (buildProgram example_env [''bun'', ''build.ts'', ''--define.VERSION=1'']))) =
          (r = request2)"
    and k2: "\<forall>k. request2 k =
        (case own ?st2 k of
           Some v \<Rightarrow> Some v
         | None \<Rightarrow>
             [''entrypoints'' \<mapsto> JArr (map (\<lambda>s. Some (JStr s))
                 (discover example_env [''index.html'', ''admin.html''])) Map.empty,
              ''outdir'' \<mapsto> JStr (outdir_of example_env ?st2),
              ''plugins'' \<mapsto> JArr [Some JPlugin] Map.empty,
              ''minify'' \<mapsto> JBool True,
              ''target'' \<mapsto> JStr ''browser'',
              ''sourcemap'' \<mapsto> JStr ''linked'',
              ''define'' \<mapsto>
                JObj [''process.env.NODE_ENV'' \<mapsto>
                        JStr (CHR 0x22 # ''production'' @ [CHR 0x22])]] k)"
    by blast
  have second: "\<exists>request.
      Bun_build request \<in>
        set (fst (buildProgram example_env [''bun'', ''build.ts'', ''--define.VERSION=1''])) \<and>
      request ''define'' = Some (JObj [''VERSION'' \<mapsto> JNum 1]) \<and>
      request ''minify'' = Some (JBool True)"
  proof (intro exI [of _ request2] conjI)
    show "Bun_build request2 \<in>
        set (fst (buildProgram example_env [''bun'', ''build.ts'', ''--define.VERSION=1'']))"
      using r2 by simp
    show "request2 ''define'' = Some (JObj [''VERSION'' \<mapsto> JNum 1])"
      using k2 [rule_format, of "''define''"] by simp
    show "request2 ''minify'' = Some (JBool True)" using k2 [rule_format, of "''minify''"] by simp
  qed
  show ?thesis by (intro conjI p c g first p2 second)
qed

text \<open>
  C6. Let \<open>d\<close> be the output directory of a run. If \<open>d\<close> does not exist, the cleaner
  succeeds without removing anything and the run does not end in a \<open>CleanError\<close>. If
  \<open>d\<close> exists and its removal fails with \<open>e\<close>, the run ends in the \<open>CleanError\<close>
  that carries \<open>d\<close> and \<open>e\<close>, and it has neither scanned for entrypoints nor called
  \<^verbatim>\<open>Bun.build\<close>.
\<close>

theorem clean_stage:
  assumes "parse_state (js env) argv = Inr st" and "d = outdir_of env st"
  shows "(fs_exists env d = Inr False \<longrightarrow>
            clean env d = ([Fs_exists d], Inr ()) \<and>
            Fs_remove d \<notin> set (fst (clean env d)) \<and>
            (\<forall>m c. snd (buildProgram env argv) \<noteq> Inl (CleanError m c))) \<and>
         (fs_exists env d = Inr True \<and> fs_remove env d = Some e \<longrightarrow>
            buildProgram env argv =
              ([Log_starting, Fs_exists d, Log_cleaning d, Fs_remove d],
               Inl (CleanError (''Failed to clean directory: '' @ d)
                      \<lparr>clean_directory = d, clean_originalError = e\<rparr>)) \<and>
            Glob_scan \<notin> set (fst (buildProgram env argv)) \<and>
            (\<forall>request. Bun_build request \<notin> set (fst (buildProgram env argv))))"
proof (intro conjI impI)
  assume ne: "fs_exists env d = Inr False"
  then show c: "clean env d = ([Fs_exists d], Inr ())" by (rule clean_not_exists)
  then show "Fs_remove d \<notin> set (fst (clean env d))" by simp
  from c assms buildProgram_clean_ok [of env argv st "[Fs_exists d]" "()"]
  show "\<forall>m c. snd (buildProgram env argv) \<noteq> Inl (CleanError m c)" by simp
next
  assume "fs_exists env d = Inr True \<and> fs_remove env d = Some e"
  then have "clean env d = ([Fs_exists d, Log_cleaning d, Fs_remove d],
       Inl (CleanError (''Failed to clean directory: '' @ d)
              \<lparr>clean_directory = d, clean_originalError = e\<rparr>))"
    by (simp add: clean_remove_fails)
  with assms show b: "buildProgram env argv =
              ([Log_starting, Fs_exists d, Log_cleaning d, Fs_remove d],
               Inl (CleanError (''Failed to clean directory: '' @ d)
                      \<lparr>clean_directory = d, clean_originalError = e\<rparr>))"
    by (simp add: buildProgram_clean_fails)
  show "Glob_scan \<notin> set (fst (buildProgram env argv))" by (simp add: b)
  show "\<forall>request. Bun_build request \<notin> set (fst (buildProgram env argv))" by (simp add: b)
qed

theorem clean_stage_witness:
  "parse_state (js example_env) [''bun'', ''build.ts'', ''--outdir=build''] =
     Inr (initial\<lparr>own := [''outdir'' \<mapsto> JStr ''build'']\<rparr>) \<and>
   parse_state (js locked_env) [''bun'', ''build.ts'', ''--outdir=build''] =
     Inr (initial\<lparr>own := [''outdir'' \<mapsto> JStr ''build'']\<rparr>) \<and>
   ''build'' = outdir_of example_env (initial\<lparr>own := [''outdir'' \<mapsto> JStr ''build'']\<rparr>) \<and>
   ''build'' = outdir_of locked_env (initial\<lparr>own := [''outdir'' \<mapsto> JStr ''build'']\<rparr>) \<and>
   fs_exists example_env ''build'' = Inr False \<and>
   clean example_env ''build'' = ([Fs_exists ''build''], Inr ()) \<and>
   (\<forall>m c. snd (buildProgram example_env [''bun'', ''build.ts'', ''--outdir=build'']) \<noteq>
      Inl (CleanError m c)) \<and>
   fs_exists locked_env ''build'' = Inr True \<and>
   fs_remove locked_env ''build'' = Some (PlatformError ''EACCES'') \<and>
   buildProgram locked_env [''bun'', ''build.ts'', ''--outdir=build''] =
     ([Log_starting, Fs_exists ''build'', Log_cleaning ''build'', Fs_remove ''build''],
      Inl (CleanError ''Failed to clean directory: build''
             \<lparr>clean_directory = ''build'', clean_originalError = PlatformError ''EACCES''\<rparr>))"
proof -
  let ?st = "initial\<lparr>own := [''outdir'' \<mapsto> JStr ''build'']\<rparr>"
  have p1: "parse_state (js example_env) [''bun'', ''build.ts'', ''--outdir=build''] = Inr ?st"
    by (simp add: example_env_answers argv_build)
  have p2: "parse_state (js locked_env) [''bun'', ''build.ts'', ''--outdir=build''] = Inr ?st"
    by (simp add: locked_env_answers argv_build)
  have o1: "''build'' = outdir_of example_env ?st" by (simp add: outdir_of_own_string)
  have o2: "''build'' = outdir_of locked_env ?st" by (simp add: outdir_of_own_string)
  have e1: "fs_exists example_env ''build'' = Inr False" by (simp add: example_env_answers)
  have e2: "fs_exists locked_env ''build'' = Inr True"
    and e3: "fs_remove locked_env ''build'' = Some (PlatformError ''EACCES'')"
    by (simp_all add: locked_env_answers)
  note t1 = clean_stage [OF p1 o1, of "PlatformError ''EACCES''", THEN conjunct1, rule_format, OF e1]
  note t2 = clean_stage [OF p2 o2, of "PlatformError ''EACCES''", THEN conjunct2, rule_format,
      OF conjI [OF e2 e3]]
  have r: "buildProgram locked_env [''bun'', ''build.ts'', ''--outdir=build''] =
     ([Log_starting, Fs_exists ''build'', Log_cleaning ''build'', Fs_remove ''build''],
      Inl (CleanError ''Failed to clean directory: build''
             \<lparr>clean_directory = ''build'', clean_originalError = PlatformError ''EACCES''\<rparr>))"
    using t2 [THEN conjunct1] by simp
  show ?thesis
    by (intro conjI p1 p2 o1 o2 e1 e2 e3 r t1 [THEN conjunct1]
        t1 [THEN conjunct2, THEN conjunct2])
qed

text \<open>
  C3, as amended. When the run reaches \<^verbatim>\<open>Bun.build\<close> and the call throws \<open>t\<close>, the run
  ends in the \<open>BuildError\<close> whose cause carries \<open>t\<close>, the discovered entrypoints, the
  directory that the cleaner was given, and the parsed command-line configuration alone,
  without the defaults of the request. The last call of the run is the build call: no
  table is printed.
\<close>

theorem build_failure_payload:
  assumes "parse_state (js env) argv = Inr st"
    and "clean env (outdir_of env st) = (cleaning, Inr ())"
    and "glob_scan env = Inr files"
    and "bun_build env (build_request (discover env files) (outdir_of env st) (own st)) = Inl t"
  shows "buildProgram env argv =
           (Log_starting # cleaning @
              [Glob_scan, Log_found (length (discover env files)),
               Bun_build (build_request (discover env files) (outdir_of env st) (own st))],
            Inl (BuildError ''Build failed''
                   \<lparr>build_originalError = t,
                    build_entrypoints = discover env files,
                    build_outdir = outdir_of env st,
                    build_config = own st\<rparr>)) \<and>
         (set cleaning \<subseteq> {Fs_exists (outdir_of env st), Log_cleaning (outdir_of env st),
                          Fs_remove (outdir_of env st)}) \<and>
         (\<forall>rows. Console_table rows \<notin> set (fst (buildProgram env argv)))"
proof -
  have b: "buildProgram env argv =
           (Log_starting # cleaning @
              [Glob_scan, Log_found (length (discover env files)),
               Bun_build (build_request (discover env files) (outdir_of env st) (own st))],
            Inl (BuildError ''Build failed''
                   \<lparr>build_originalError = t,
                    build_entrypoints = discover env files,
                    build_outdir = outdir_of env st,
                    build_config = own st\<rparr>))"
    using assms by (simp add: buildProgram_def Let_def)
  have c: "set cleaning \<subseteq> {Fs_exists (outdir_of env st), Log_cleaning (outdir_of env st),
                          Fs_remove (outdir_of env st)}"
    using assms(2) by (rule clean_events)
  have "\<forall>rows. Console_table rows \<notin> set (fst (buildProgram env argv))"
    using c by (auto simp: b)
  with b c show ?thesis by blast
qed

theorem build_failure_payload_witness:
  "parse_state (js example_env) [''bun'', ''build.ts'', ''--outdir=build''] =
     Inr (initial\<lparr>own := [''outdir'' \<mapsto> JStr ''build'']\<rparr>) \<and>
   clean example_env (outdir_of example_env (initial\<lparr>own := [''outdir'' \<mapsto> JStr ''build'']\<rparr>)) =
     ([Fs_exists ''build''], Inr ()) \<and>
   glob_scan example_env = Inr [''index.html'', ''admin.html''] \<and>
   bun_build example_env
     (build_request (discover example_env [''index.html'', ''admin.html''])
        (outdir_of example_env (initial\<lparr>own := [''outdir'' \<mapsto> JStr ''build'']\<rparr>))
        (own (initial\<lparr>own := [''outdir'' \<mapsto> JStr ''build'']\<rparr>))) =
     Inl (Thrown ''bundle failed'') \<and>
   snd (buildProgram example_env [''bun'', ''build.ts'', ''--outdir=build'']) =
     Inl (BuildError ''Build failed''
            \<lparr>build_originalError = Thrown ''bundle failed'',
             build_entrypoints = [''/app/src/index.html'', ''/app/src/admin.html''],
             build_outdir = ''build'',
             build_config = [''outdir'' \<mapsto> JStr ''build'']\<rparr>) \<and>
   (\<forall>rows. Console_table rows \<notin>
      set (fst (buildProgram example_env [''bun'', ''build.ts'', ''--outdir=build''])))"
proof -
  let ?st = "initial\<lparr>own := [''outdir'' \<mapsto> JStr ''build'']\<rparr>"
  have p: "parse_state (js example_env) [''bun'', ''build.ts'', ''--outdir=build''] = Inr ?st"
    by (simp add: example_env_answers argv_build)
  have o: "outdir_of example_env ?st = ''build''" by (simp add: outdir_of_own_string)
  have c: "clean example_env (outdir_of example_env ?st) = ([Fs_exists ''build''], Inr ())"
    by (simp add: o clean_def example_env_answers)
  have g: "glob_scan example_env = Inr [''index.html'', ''admin.html'']"
    by (simp add: example_env_answers)
  have t: "bun_build example_env
     (build_request (discover example_env [''index.html'', ''admin.html''])
        (outdir_of example_env ?st) (own ?st)) = Inl (Thrown ''bundle failed'')"
    by (simp add: example_env_answers)
  note r = build_failure_payload [OF p c g t]
  have s: "snd (buildProgram example_env [''bun'', ''build.ts'', ''--outdir=build'']) =
     Inl (BuildError ''Build failed''
            \<lparr>build_originalError = Thrown ''bundle failed'',
             build_entrypoints = [''/app/src/index.html'', ''/app/src/admin.html''],
             build_outdir = ''build'',
             build_config = [''outdir'' \<mapsto> JStr ''build'']\<rparr>)"
    using r [THEN conjunct1] by (simp add: o discover_example)
  show ?thesis by (intro conjI p c g t s r [THEN conjunct2, THEN conjunct2])
qed

text \<open>
  C3, as stated, fails: with \<^verbatim>\<open>--outdir=build\<close> and a build that throws, the
  configuration in the cause has no \<^verbatim>\<open>minify\<close>, which the merged request has.
\<close>

theorem build_error_config_counterexample:
  "snd (buildProgram example_env [''bun'', ''build.ts'', ''--outdir=build'']) =
     Inl (BuildError ''Build failed''
            \<lparr>build_originalError = Thrown ''bundle failed'',
             build_entrypoints = [''/app/src/index.html'', ''/app/src/admin.html''],
             build_outdir = ''build'',
             build_config = [''outdir'' \<mapsto> JStr ''build'']\<rparr>) \<and>
   [''outdir'' \<mapsto> JStr ''build''] ''minify'' = None \<and>
   build_request [''/app/src/index.html'', ''/app/src/admin.html''] ''build''
     [''outdir'' \<mapsto> JStr ''build''] ''minify'' = Some (JBool True)"
proof -
  have "snd (buildProgram example_env [''bun'', ''build.ts'', ''--outdir=build'']) =
     Inl (BuildError ''Build failed''
            \<lparr>build_originalError = Thrown ''bundle failed'',
             build_entrypoints = [''/app/src/index.html'', ''/app/src/admin.html''],
             build_outdir = ''build'',
             build_config = [''outdir'' \<mapsto> JStr ''build'']\<rparr>)"
    by (simp add: buildProgram_def argv_build outdir_of_own_string clean_def Let_def
        discover_example example_env_answers)
  then show ?thesis by (simp add: build_request_def build_defaults_def)
qed



end
